theory Spec2Isabelle
  imports Main
begin

section \<open>The iCalendar decoder of package ics\<close>

text \<open>
  The package reads a byte stream through a \<open>bufio.Reader\<close>, unfolds continuation
  lines into logical \<open>KEY:VALUE\<close> lines (\<open>decodeLine\<close>), builds one \<open>Event\<close> per
  \<open>VEVENT\<close> block (\<open>decodeEvent\<close>) and collects them in a \<open>Calendar\<close> whose events
  are sorted by start time (\<open>Decode\<close>).

  A Go string is a byte sequence: it is a \<open>string\<close> (a list of 8-bit \<open>char\<close>) here.
  The input stream is the list of the bytes the underlying reader still has to deliver;
  it is finite and ends with a clean end of file.
\<close>

subsection \<open>Data\<close>

text \<open>
  A \<open>time.Time\<close> obtained from a UTC layout is an instant: the number of seconds since
  January 1, year 1, 00:00:00 UTC. The zero value of the type is that instant itself,
  which is what \<open>IsZero\<close> tests; \<open>Before\<close> compares instants.
\<close>

type_synonym time = int

definition zeroTime :: time where
  "zeroTime = 0"

definition IsZero :: "time \<Rightarrow> bool" where
  "IsZero t \<longleftrightarrow> t = 0"

definition Before :: "time \<Rightarrow> time \<Rightarrow> bool" where
  "Before t u \<longleftrightarrow> t < u"

record Event =
  UID :: string
  Start :: time
  End :: time
  Summary :: string
  Location :: string
  Description :: string

record Calendar =
  Events :: "Event list"

text \<open>\<open>new(Event)\<close> and \<open>new(Calendar)\<close>: every field has its zero value.\<close>

definition newEvent :: Event where
  "newEvent = \<lparr>UID = [], Start = zeroTime, End = zeroTime,
     Summary = [], Location = [], Description = []\<rparr>"

definition newCalendar :: Calendar where
  "newCalendar = \<lparr>Events = []\<rparr>"

text \<open>
  The error values of the package and of the library calls it makes. \<open>EOF\<close> is
  \<open>io.EOF\<close>, \<open>ErrUnexpectedEOF\<close> is \<open>io.ErrUnexpectedEOF\<close>, \<open>ParseError\<close> is
  the \<open>*time.ParseError\<close> of \<open>time.Parse\<close>; the others are the
  \<open>errors.New\<close> values of the source, named after their messages.
\<close>

datatype error =
    EOF
  | ErrUnexpectedEOF
  | LongLine
  | BlankLine
  | BadLine
  | NoBeginVCalendar
  | UnexpectedEndValue
  | ParseError

text \<open>
  The kinds of section 7 of the specification: the envelope is missing, mismatched or cut
  short; a line is blank, too long or has no colon; a timestamp does not parse.
\<close>

datatype error_kind = StructuralError | LineFormatError | ValueFormatError

fun kind :: "error \<Rightarrow> error_kind" where
  "kind EOF = StructuralError"
| "kind ErrUnexpectedEOF = StructuralError"
| "kind NoBeginVCalendar = StructuralError"
| "kind UnexpectedEndValue = StructuralError"
| "kind LongLine = LineFormatError"
| "kind BlankLine = LineFormatError"
| "kind BadLine = LineFormatError"
| "kind ParseError = ValueFormatError"

subsection \<open>The buffered reader\<close>

text \<open>
  \<open>bufio.NewReader\<close> gives the reader a buffer of 4096 bytes. \<open>ReadLine\<close> returns the
  bytes up to the next line feed, without the line feed and without a carriage return
  right before it. When the buffer fills up before a line feed is seen it returns the
  buffer's content with \<open>isPrefix\<close> set (keeping back a final carriage return). At the
  end of the stream it returns what is left as a last line, and \<open>io.EOF\<close> when nothing
  is left. The result is the line, \<open>isPrefix\<close> and the rest of the stream.
\<close>

definition defaultBufSize :: nat where
  "defaultBufSize = 4096"

abbreviation LF :: char where
  "LF \<equiv> CHR 0x0A"

abbreviation CR :: char where
  "CR \<equiv> CHR 0x0D"

definition dropCR :: "string \<Rightarrow> string" where
  "dropCR l = (if l \<noteq> [] \<and> last l = CR then butlast l else l)"

definition ReadLine :: "string \<Rightarrow> error + (string \<times> bool \<times> string)" where
  "ReadLine r =
     (if r = [] then Inl EOF
      else let l = takeWhile (\<lambda>c. c \<noteq> LF) r; t = dropWhile (\<lambda>c. c \<noteq> LF) r in
        if defaultBufSize \<le> length l then
          (if r ! (defaultBufSize - 1) = CR
           then Inr (take (defaultBufSize - 1) r, True, drop (defaultBufSize - 1) r)
           else Inr (take defaultBufSize r, True, drop defaultBufSize r))
        else if t = [] then Inr (l, False, [])
        else Inr (dropCR l, False, tl t))"

text \<open>\<open>Peek(1)\<close>: the next byte, not consumed, or \<open>io.EOF\<close>.\<close>

definition Peek1 :: "string \<Rightarrow> error + char" where
  "Peek1 r = (case r of [] \<Rightarrow> Inl EOF | c # _ \<Rightarrow> Inr c)"

subsection \<open>decodeLine\<close>

text \<open>
  \<open>strings.SplitN(s, ":", 2)\<close>: the text before the first colon and the text after it,
  or the whole text alone when it has no colon.
\<close>

fun cutColon :: "string \<Rightarrow> (string \<times> string) option" where
  "cutColon [] = None"
| "cutColon (c # cs) =
     (if c = CHR '':'' then Some ([], cs)
      else (case cutColon cs of None \<Rightarrow> None | Some (k, v) \<Rightarrow> Some (c # k, v)))"

definition SplitN2 :: "string \<Rightarrow> string list" where
  "SplitN2 s = (case cutColon s of None \<Rightarrow> [s] | Some (k, v) \<Rightarrow> [k, v])"

lemma length_tl_dropWhile:
  "dropWhile P r \<noteq> [] \<Longrightarrow> length (tl (dropWhile P r)) < length r"
  using length_dropWhile_le [of P r] by (cases "dropWhile P r") auto

lemma ReadLine_shorter:
  assumes "ReadLine r = Inr (b, p, r')"
  shows "length r' < length r"
proof -
  let ?l = "takeWhile (\<lambda>c. c \<noteq> LF) r" and ?t = "dropWhile (\<lambda>c. c \<noteq> LF) r"
  from assms have ne: "r \<noteq> []"
    by (auto simp: ReadLine_def)
  have len: "length ?l \<le> length r"
    by (rule length_takeWhile_le)
  show ?thesis
  proof (cases "defaultBufSize \<le> length ?l")
    case True
    with len have "defaultBufSize \<le> length r" by simp
    with assms ne True show ?thesis
      by (auto simp: ReadLine_def Let_def defaultBufSize_def split: if_splits)
  next
    case False
    with assms ne length_tl_dropWhile [of "\<lambda>c. c \<noteq> LF" r] show ?thesis
      by (auto simp: ReadLine_def Let_def split: if_splits)
  qed
qed

text \<open>
  The loop of \<open>decodeLine\<close>, with the buffer \<open>buf\<close> it appends to: it returns the
  finished logical line and the rest of the stream.
\<close>

function readLogical :: "string \<Rightarrow> string \<Rightarrow> error + (string \<times> string)" where
  "readLogical buf r =
     (case ReadLine r of
        Inl err \<Rightarrow> Inl (if err = EOF then ErrUnexpectedEOF else err)
      | Inr (b, isPrefix, r') \<Rightarrow>
          if isPrefix then Inl LongLine
          else if length b = 0 then Inl BlankLine
          else let b = (if hd b = CHR '' '' then tl b else b);
                   buf = buf @ b in
            (case Peek1 r' of
               Inl _ \<Rightarrow> Inr (buf, r')
             | Inr c \<Rightarrow> if c \<noteq> CHR '' '' then Inr (buf, r') else readLogical buf r'))"
  by pat_completeness auto
termination
  by (relation "measure (\<lambda>(buf, r). length r)") (auto dest: ReadLine_shorter)

declare readLogical.simps [simp del]

definition decodeLine :: "string \<Rightarrow> error + (string \<times> string \<times> string)" where
  "decodeLine r =
     (case readLogical [] r of
        Inl err \<Rightarrow> Inl err
      | Inr (buf, r') \<Rightarrow>
          let p = SplitN2 buf in
          if length p \<noteq> 2 then Inl BadLine
          else Inr (p ! 0, p ! 1, r'))"

lemma readLogical_shorter:
  "readLogical buf r = Inr (l, r') \<Longrightarrow> length r' < length r"
proof (induction buf r rule: readLogical.induct)
  case (1 buf r)
  from "1.prems" obtain b p r1 where rl: "ReadLine r = Inr (b, p, r1)"
    by (subst (asm) readLogical.simps) (auto split: sum.splits)
  from rl have less: "length r1 < length r"
    by (rule ReadLine_shorter)
  from "1.prems" rl have ok: "\<not> p" "length b \<noteq> 0"
    by (subst (asm) readLogical.simps, auto split: if_splits)+
  show ?case
  proof (cases "Peek1 r1 = Inr CHR '' ''")
    case True
    with "1.prems" rl ok
    have "readLogical (buf @ (if hd b = CHR '' '' then tl b else b)) r1 = Inr (l, r')"
      by (subst (asm) readLogical.simps) (simp add: Let_def)
    with "1.IH" [OF rl refl refl _ _ refl refl True] ok have "length r' < length r1"
      by (simp add: Let_def)
    with less show ?thesis by simp
  next
    case False
    with "1.prems" rl ok have "r' = r1"
      by (subst (asm) readLogical.simps) (auto simp: Let_def split: sum.splits if_splits)
    with less show ?thesis by simp
  qed
qed

lemma decodeLine_shorter:
  "decodeLine r = Inr (k, v, r') \<Longrightarrow> length r' < length r"
  by (auto simp: decodeLine_def Let_def split: sum.splits if_splits
           dest: readLogical_shorter)

subsection \<open>decodeTime\<close>

text \<open>
  Modelled from the spec: \<open>time.Parse\<close> belongs to Go's standard library, which is not
  part of the repository. With the layout \<open>20060102T150405Z\<close> it accepts a 4-digit year,
  a 2-digit month, day, hour, minute and second, the letter T between date and time and
  the letter Z at the end, read as UTC. A field out of its range (month 13, February 30,
  hour 24) is a parse error as well. The result is the instant, in seconds since January 1
  of year 1.
\<close>

definition isDigit :: "char \<Rightarrow> bool" where
  "isDigit c \<longleftrightarrow> 48 \<le> (of_char c :: nat) \<and> (of_char c :: nat) \<le> 57"

fun atoi :: "nat \<Rightarrow> string \<Rightarrow> nat option" where
  "atoi acc [] = Some acc"
| "atoi acc (c # cs) =
     (if isDigit c then atoi (acc * 10 + (of_char c - 48)) cs else None)"

definition isLeap :: "nat \<Rightarrow> bool" where
  "isLeap y \<longleftrightarrow> y mod 4 = 0 \<and> (y mod 100 \<noteq> 0 \<or> y mod 400 = 0)"

definition daysBefore :: "nat list" where
  "daysBefore = [0, 31, 59, 90, 120, 151, 181, 212, 243, 273, 304, 334, 365]"

definition daysIn :: "nat \<Rightarrow> nat \<Rightarrow> nat" where
  "daysIn m y = (if m = 2 \<and> isLeap y then 29 else daysBefore ! m - daysBefore ! (m - 1))"

definition Date :: "nat \<Rightarrow> nat \<Rightarrow> nat \<Rightarrow> nat \<Rightarrow> nat \<Rightarrow> nat \<Rightarrow> time" where
  "Date y m d h mi s =
     (let y1 = int y - 1;
          days = 365 * y1 + y1 div 4 - y1 div 100 + y1 div 400
                 + int (daysBefore ! (m - 1)) + (if isLeap y \<and> 3 \<le> m then 1 else 0)
                 + (int d - 1)
      in ((days * 24 + int h) * 60 + int mi) * 60 + int s)"

definition timeParse :: "string \<Rightarrow> error + time" where
  "timeParse value =
     (if length value \<noteq> 16 \<or> value ! 8 \<noteq> CHR ''T'' \<or> value ! 15 \<noteq> CHR ''Z''
      then Inl ParseError
      else case (atoi 0 (take 4 value), atoi 0 (take 2 (drop 4 value)),
                 atoi 0 (take 2 (drop 6 value)), atoi 0 (take 2 (drop 9 value)),
                 atoi 0 (take 2 (drop 11 value)), atoi 0 (take 2 (drop 13 value))) of
          (Some y, Some m, Some d, Some h, Some mi, Some s) \<Rightarrow>
            if 1 \<le> m \<and> m \<le> 12 \<and> 1 \<le> d \<and> d \<le> daysIn m y \<and> h < 24 \<and> mi < 60 \<and> s < 60
            then Inr (Date y m d h mi s)
            else Inl ParseError
        | _ \<Rightarrow> Inl ParseError)"

definition decodeTime :: "string \<Rightarrow> error + time" where
  "decodeTime value = timeParse value"

subsection \<open>decodeEvent\<close>

text \<open>
  The \<open>switch\<close> of \<open>decodeEvent\<close> for a key other than \<open>END\<close>: the field the key
  names is overwritten, a timestamp that does not parse leaves \<open>err\<close> set, and any
  other key changes nothing.
\<close>

definition setField :: "string \<Rightarrow> string \<Rightarrow> Event \<Rightarrow> error + Event" where
  "setField key value e =
     (if key = ''UID'' then Inr (e\<lparr>UID := value\<rparr>)
      else if key = ''DTSTART'' then
        (case decodeTime value of Inl err \<Rightarrow> Inl err | Inr t \<Rightarrow> Inr (e\<lparr>Start := t\<rparr>))
      else if key = ''DTEND'' then
        (case decodeTime value of Inl err \<Rightarrow> Inl err | Inr t \<Rightarrow> Inr (e\<lparr>End := t\<rparr>))
      else if key = ''SUMMARY'' then Inr (e\<lparr>Summary := value\<rparr>)
      else if key = ''LOCATION'' then Inr (e\<lparr>Location := value\<rparr>)
      else if key = ''DESCRIPTION'' then Inr (e\<lparr>Description := value\<rparr>)
      else Inr e)"

text \<open>
  The loop of \<open>decodeEvent\<close>, entered with \<open>err\<close> unset. An error of \<open>decodeLine\<close>
  comes with an empty key, which no case of the \<open>switch\<close> matches, so that the next
  iteration returns it; so does an error of \<open>decodeTime\<close>. The result is the event and
  the rest of the stream.
\<close>

function decodeEvent_loop :: "Event \<Rightarrow> string \<Rightarrow> error + (Event \<times> string)" where
  "decodeEvent_loop e r =
     (case decodeLine r of
        Inl err \<Rightarrow> Inl err
      | Inr (key, value, r') \<Rightarrow>
          if key = ''END'' then
            (if value \<noteq> ''VEVENT'' then Inl UnexpectedEndValue else Inr (e, r'))
          else
            (case setField key value e of
               Inl err \<Rightarrow> Inl err
             | Inr e' \<Rightarrow> decodeEvent_loop e' r'))"
  by pat_completeness auto
termination
  by (relation "measure (\<lambda>(e, r). length r)") (auto dest: decodeLine_shorter)

declare decodeEvent_loop.simps [simp del]

definition decodeEvent :: "string \<Rightarrow> error + (Event \<times> string)" where
  "decodeEvent r = decodeEvent_loop newEvent r"

lemma decodeEvent_loop_shorter:
  "decodeEvent_loop e r = Inr (e', r') \<Longrightarrow> length r' < length r"
proof (induction e r rule: decodeEvent_loop.induct)
  case (1 e r)
  from "1.prems" obtain key val r1 where dl: "decodeLine r = Inr (key, val, r1)"
    by (subst (asm) decodeEvent_loop.simps) (auto split: sum.splits)
  from dl have less: "length r1 < length r"
    by (rule decodeLine_shorter)
  show ?case
  proof (cases "key = ''END''")
    case True
    with "1.prems" dl have "r' = r1"
      by (subst (asm) decodeEvent_loop.simps) (auto split: if_splits)
    with less show ?thesis by simp
  next
    case False
    with "1.prems" dl obtain e1 where sf: "setField key val e = Inr e1"
      and rec: "decodeEvent_loop e1 r1 = Inr (e', r')"
      by (subst (asm) decodeEvent_loop.simps) (auto split: sum.splits)
    from "1.IH" [OF dl refl refl False sf rec] less show ?thesis by simp
  qed
qed

lemma decodeEvent_shorter:
  "decodeEvent r = Inr (e, r') \<Longrightarrow> length r' < length r"
  unfolding decodeEvent_def by (rule decodeEvent_loop_shorter)

subsection \<open>Sorting the events\<close>

text \<open>The methods of \<open>eventList\<close>, on the slice and two of its indices.\<close>

definition Less :: "Event list \<Rightarrow> nat \<Rightarrow> nat \<Rightarrow> bool" where
  "Less l i j =
     (if IsZero (Start (l ! i)) then True
      else if IsZero (Start (l ! j)) then False
      else Before (Start (l ! i)) (Start (l ! j)))"

definition Swap :: "Event list \<Rightarrow> nat \<Rightarrow> nat \<Rightarrow> Event list" where
  "Swap l i j = l[i := l ! j, j := l ! i]"

definition Len :: "Event list \<Rightarrow> nat" where
  "Len l = length l"

text \<open>
  Modelled from the spec: \<open>sort.Sort\<close> belongs to Go's standard library, which is not
  part of the repository; the spec asks for the events in the order of the comparator and
  for no stability. The model is the insertion sort the library runs on a short slice,
  through \<open>Len\<close>, \<open>Less\<close> and \<open>Swap\<close> only: for every index \<open>i\<close> from 1 on, the
  element at \<open>i\<close> moves down while it is \<open>Less\<close> than the one before it.
\<close>

fun insertDown :: "Event list \<Rightarrow> nat \<Rightarrow> Event list" where
  "insertDown l 0 = l"
| "insertDown l (Suc j) =
     (if Less l (Suc j) j then insertDown (Swap l (Suc j) j) j else l)"

definition Sort :: "Event list \<Rightarrow> Event list" where
  "Sort l = fold (\<lambda>i l. insertDown l i) [1 ..< Len l] l"

subsection \<open>Decode\<close>

text \<open>
  A call of \<open>Decode\<close> returns its pair of a calendar pointer and an error, each of them
  possibly nil, or it panics (on a nil pointer).
\<close>

datatype outcome = Panic | Return "Calendar option" "error option"

text \<open>
  The loop of \<open>Decode\<close> with the calendar pointer \<open>c\<close>, nil at first. Leaving the loop
  at \<open>END:VCALENDAR\<close> sorts \<open>c.Event\<close>, which dereferences \<open>c\<close>.
\<close>

function Decode_loop :: "Calendar option \<Rightarrow> string \<Rightarrow> outcome" where
  "Decode_loop c r =
     (case decodeLine r of
        Inl err \<Rightarrow> Return None (Some err)
      | Inr (key, value, r') \<Rightarrow>
          if key = ''BEGIN'' then
            (if c = None \<and> value \<noteq> ''VCALENDAR'' then Return None (Some NoBeginVCalendar)
             else let c = (if c = None then Some newCalendar else c) in
               if value = ''VEVENT'' then
                 (case decodeEvent r' of
                    Inl err \<Rightarrow> Return None (Some err)
                  | Inr (e, r'') \<Rightarrow>
                      (case c of
                         None \<Rightarrow> Panic
                       | Some cal \<Rightarrow> Decode_loop (Some (cal\<lparr>Events := Events cal @ [e]\<rparr>)) r''))
               else Decode_loop c r')
          else if key = ''END'' \<and> value = ''VCALENDAR'' then
            (case c of
               None \<Rightarrow> Panic
             | Some cal \<Rightarrow> Return (Some (cal\<lparr>Events := Sort (Events cal)\<rparr>)) None)
          else Decode_loop c r')"
  by pat_completeness auto
termination
  by (relation "measure (\<lambda>(c, r). length r)")
     (auto dest!: decodeLine_shorter decodeEvent_shorter)

declare Decode_loop.simps [simp del]

definition Decode :: "string \<Rightarrow> outcome" where
  "Decode rd = Decode_loop None rd"

subsection \<open>Positions of the decoder in a stream\<close>

text \<open>
  \<open>calendar_at rd c r\<close>: the call \<open>Decode rd\<close> arrives at the head of its loop with
  the calendar pointer \<open>c\<close> and the stream \<open>r\<close> left to read. There is one rule for
  each way through the loop body that goes round again.
\<close>

inductive calendar_at :: "string \<Rightarrow> Calendar option \<Rightarrow> string \<Rightarrow> bool" for rd where
  start: "calendar_at rd None rd"
| other:
    "calendar_at rd c r \<Longrightarrow> decodeLine r = Inr (key, value, r') \<Longrightarrow> key \<noteq> ''BEGIN'' \<Longrightarrow>
     \<not> (key = ''END'' \<and> value = ''VCALENDAR'') \<Longrightarrow> calendar_at rd c r'"
| begin_calendar:
    "calendar_at rd None r \<Longrightarrow> decodeLine r = Inr (''BEGIN'', ''VCALENDAR'', r') \<Longrightarrow>
     calendar_at rd (Some newCalendar) r'"
| begin_other:
    "calendar_at rd (Some cal) r \<Longrightarrow> decodeLine r = Inr (''BEGIN'', value, r') \<Longrightarrow>
     value \<noteq> ''VEVENT'' \<Longrightarrow> calendar_at rd (Some cal) r'"
| event:
    "calendar_at rd (Some cal) r \<Longrightarrow> decodeLine r = Inr (''BEGIN'', ''VEVENT'', r') \<Longrightarrow>
     decodeEvent r' = Inr (e, r'') \<Longrightarrow>
     calendar_at rd (Some (cal\<lparr>Events := Events cal @ [e]\<rparr>)) r''"

text \<open>
  \<open>event_at rd cal e r\<close>: the call \<open>Decode rd\<close> is inside \<open>decodeEvent\<close>, at the
  head of its loop with \<open>err\<close> unset, the event \<open>e\<close> under construction and the stream
  \<open>r\<close> left to read, while the calendar holds \<open>cal\<close>.
\<close>

inductive event_at :: "string \<Rightarrow> Calendar \<Rightarrow> Event \<Rightarrow> string \<Rightarrow> bool" for rd where
  enter:
    "calendar_at rd (Some cal) r \<Longrightarrow> decodeLine r = Inr (''BEGIN'', ''VEVENT'', r') \<Longrightarrow>
     event_at rd cal newEvent r'"
| field:
    "event_at rd cal e r \<Longrightarrow> decodeLine r = Inr (key, value, r') \<Longrightarrow> key \<noteq> ''END'' \<Longrightarrow>
     setField key value e = Inr e' \<Longrightarrow> event_at rd cal e' r'"

text \<open>
  The layout of a timestamp in the words of the specification: a 4-digit year, a 2-digit
  month, day, hour, minute and second, the letter T after the date and the letter Z at the
  end.
\<close>

definition matchesLayout :: "string \<Rightarrow> bool" where
  "matchesLayout value \<longleftrightarrow>
     length value = 16 \<and>
     list_all (\<lambda>i. isDigit (value ! i)) [0, 1, 2, 3, 4, 5, 6, 7, 9, 10, 11, 12, 13, 14] \<and>
     value ! 8 = CHR ''T'' \<and> value ! 15 = CHR ''Z''"


text \<open>A stream written as its physical lines, each ended by a line feed.\<close>

definition unlines :: "string list \<Rightarrow> string" where
  "unlines ls = concat (map (\<lambda>l. l @ [LF]) ls)"



text \<open>
  Insertion into a list kept in descending order, used to describe what \<open>insertDown\<close>
  does to the reversed prefix of the slice.
\<close>

fun insr :: "Event \<Rightarrow> Event list \<Rightarrow> Event list" where
  "insr x [] = [x]"
| "insr x (y # rs) = (if Less [x, y] 0 1 then y # insr x rs else x # y # rs)"


text \<open>
  Two notions for comparing the decoding of two streams with a common prefix \<open>p\<close>.
  \<open>line_end p r\<close>: a read that consumed \<open>p\<close> and left \<open>r\<close> stopped at the end of
  a logical line (nothing is left, or the next byte is no space, and \<open>p\<close> ends with a
  line feed unless nothing is left). \<open>new_line p t\<close>: the prefix \<open>p\<close> ends with a line
  feed and \<open>t\<close> does not start with a continuation line.
\<close>

definition line_end :: "string \<Rightarrow> string \<Rightarrow> bool" where
  "line_end p r \<longleftrightarrow> p \<noteq> [] \<and> (r = [] \<or> hd r \<noteq> CHR '' '') \<and> (r \<noteq> [] \<longrightarrow> last p = LF)"

definition new_line :: "string \<Rightarrow> string \<Rightarrow> bool" where
  "new_line p t \<longleftrightarrow> last p = LF \<and> (t = [] \<or> hd t \<noteq> CHR '' '')"

section \<open>Properties\<close>

subsection \<open>One iteration of each loop\<close>


lemma decodeEvent_loop_end:
  "decodeLine r = Inr (''END'', value, r') \<Longrightarrow>
   decodeEvent_loop e r = (if value \<noteq> ''VEVENT'' then Inl UnexpectedEndValue else Inr (e, r'))"
  by (subst decodeEvent_loop.simps) simp

lemma decodeEvent_loop_field:
  "decodeLine r = Inr (key, value, r') \<Longrightarrow> key \<noteq> ''END'' \<Longrightarrow>
   decodeEvent_loop e r =
     (case setField key value e of Inl err \<Rightarrow> Inl err | Inr e' \<Rightarrow> decodeEvent_loop e' r')"
  by (subst decodeEvent_loop.simps) simp


lemma Decode_loop_other:
  "decodeLine r = Inr (key, value, r') \<Longrightarrow> key \<noteq> ''BEGIN'' \<Longrightarrow>
   \<not> (key = ''END'' \<and> value = ''VCALENDAR'') \<Longrightarrow>
   Decode_loop c r = Decode_loop c r'"
  by (subst Decode_loop.simps) auto



lemma Decode_loop_begin_calendar:
  "decodeLine r = Inr (''BEGIN'', ''VCALENDAR'', r') \<Longrightarrow>
   Decode_loop None r = Decode_loop (Some newCalendar) r'"
  by (subst Decode_loop.simps) simp

lemma Decode_loop_begin_other:
  "decodeLine r = Inr (''BEGIN'', value, r') \<Longrightarrow> value \<noteq> ''VEVENT'' \<Longrightarrow>
   Decode_loop (Some cal) r = Decode_loop (Some cal) r'"
  by (subst Decode_loop.simps) simp

lemma Decode_loop_event:
  "decodeLine r = Inr (''BEGIN'', ''VEVENT'', r') \<Longrightarrow>
   Decode_loop (Some cal) r =
     (case decodeEvent r' of
        Inl err \<Rightarrow> Return None (Some err)
      | Inr (e, r'') \<Rightarrow> Decode_loop (Some (cal\<lparr>Events := Events cal @ [e]\<rparr>)) r'')"
  by (subst Decode_loop.simps) (simp split: sum.splits)

subsection \<open>Reading one physical line\<close>

lemma ReadLine_LF:
  assumes "LF \<notin> set l" "length l < defaultBufSize"
  shows "ReadLine (l @ LF # rest) = Inr (dropCR l, False, rest)"
proof -
  from assms(1) have tw: "takeWhile (\<lambda>c. c \<noteq> LF) (l @ LF # rest) = l"
    by (induction l) auto
  from assms(1) have dw: "dropWhile (\<lambda>c. c \<noteq> LF) (l @ LF # rest) = LF # rest"
    by (induction l) auto
  from assms(2) show ?thesis
    unfolding ReadLine_def Let_def tw dw by simp
qed

lemma readLogical_LF:
  assumes "LF \<notin> set l" "length l < defaultBufSize" "dropCR l \<noteq> []"
  shows "readLogical buf (l @ LF # rest) =
     (if rest \<noteq> [] \<and> hd rest = CHR '' ''
      then readLogical (buf @ (if hd (dropCR l) = CHR '' '' then tl (dropCR l) else dropCR l)) rest
      else Inr (buf @ (if hd (dropCR l) = CHR '' '' then tl (dropCR l) else dropCR l), rest))"
  using assms(3)
  by (subst readLogical.simps)
     (auto simp: ReadLine_LF [OF assms(1,2)] Let_def Peek1_def
           split: list.splits)

lemma cutColon_None: "cutColon s = None \<longleftrightarrow> CHR '':'' \<notin> set s"
  by (induction s) (auto split: option.splits)

lemma cutColon_Some:
  "cutColon s = Some (k, v) \<Longrightarrow> s = k @ CHR '':'' # v \<and> CHR '':'' \<notin> set k"
  by (induction s arbitrary: k) (auto split: option.splits if_splits)

lemma decodeLine_readLogical:
  "readLogical [] r = readLogical [] r' \<Longrightarrow> decodeLine r = decodeLine r'"
  by (simp add: decodeLine_def)

lemma dropCR_Cons: "l \<noteq> [] \<Longrightarrow> dropCR (c # l) = c # dropCR l"
  by (simp add: dropCR_def)

lemma dropCR_hd: "dropCR l \<noteq> [] \<Longrightarrow> hd (dropCR l) = hd l"
  by (cases l) (auto simp: dropCR_def split: if_splits)

lemma dropCR_empty: "dropCR l = [] \<longleftrightarrow> l = [] \<or> l = [CR]"
  by (cases l) (auto simp: dropCR_def)

lemma dropCR_append: "b \<noteq> [] \<Longrightarrow> dropCR (a @ b) = a @ dropCR b"
  by (simp add: dropCR_def butlast_append)

lemma readLogical_leading_space:
  assumes "LF \<notin> set l" "Suc (length l) < defaultBufSize"
    and "l \<noteq> []" "l \<noteq> [CR]" "hd l \<noteq> CHR '' ''"
  shows "readLogical buf (CHR '' '' # l @ LF # rest) = readLogical buf (l @ LF # rest)"
proof -
  from assms(3,4) have ne: "dropCR l \<noteq> []"
    by (simp add: dropCR_empty)
  with assms(5) have hd: "hd (dropCR l) \<noteq> CHR '' ''"
    by (simp add: dropCR_hd)
  from assms(1) have lf: "LF \<notin> set (CHR '' '' # l)"
    by simp
  from assms(2) have len: "length (CHR '' '' # l) < defaultBufSize" "length l < defaultBufSize"
    by simp_all
  from assms(3) have d: "dropCR (CHR '' '' # l) = CHR '' '' # dropCR l"
    by (rule dropCR_Cons)
  let ?res = "if rest \<noteq> [] \<and> hd rest = CHR '' '' then readLogical (buf @ dropCR l) rest
     else Inr (buf @ dropCR l, rest)"
  have A: "readLogical buf (CHR '' '' # l @ LF # rest) = ?res"
    using readLogical_LF [OF lf len(1), of buf rest] d by simp
  have B: "readLogical buf (l @ LF # rest) = ?res"
    using readLogical_LF [OF assms(1) len(2) ne, of buf rest] hd by simp
  show ?thesis
    by (simp only: A B)
qed

lemma readLogical_nl:
  assumes nl: "nl = [LF] \<or> nl = [CR, LF]"
    and lf: "LF \<notin> set l"
    and len: "length (l @ nl) \<le> defaultBufSize"
    and ne: "dropCR (l @ butlast nl) \<noteq> []"
  shows "readLogical buf (l @ nl @ rest) =
     (if rest \<noteq> [] \<and> hd rest = CHR '' ''
      then readLogical (buf @ (if hd (dropCR (l @ butlast nl)) = CHR '' ''
              then tl (dropCR (l @ butlast nl)) else dropCR (l @ butlast nl))) rest
      else Inr (buf @ (if hd (dropCR (l @ butlast nl)) = CHR '' ''
              then tl (dropCR (l @ butlast nl)) else dropCR (l @ butlast nl)), rest))"
proof -
  from nl have eq: "l @ nl @ rest = (l @ butlast nl) @ LF # rest"
    by auto
  from nl lf have lf': "LF \<notin> set (l @ butlast nl)"
    by auto
  from nl len have len': "length (l @ butlast nl) < defaultBufSize"
    by auto
  show ?thesis
    unfolding eq by (rule readLogical_LF [OF lf' len' ne])
qed

lemma dropCR_snoc_CR: "dropCR (l @ [CR]) = l"
  by (simp add: dropCR_def)

lemma readLogical_folded:
  assumes nl: "nl = [LF] \<or> nl = [CR, LF]"
    and lf: "LF \<notin> set (K @ V1 @ V2)"
    and len: "length (K @ '':'' @ V1 @ V2 @ nl) \<le> defaultBufSize"
    and cr: "nl = [CR, LF] \<or> V2 = [] \<or> V1 = [] \<or> last V1 \<noteq> CR"
  shows "readLogical buf (K @ '':'' @ V1 @ nl @ '' '' @ V2 @ nl @ rest) =
         readLogical buf (K @ '':'' @ V1 @ V2 @ nl @ rest)"
proof -
  let ?l1 = "K @ '':'' @ V1" and ?l2 = "'' '' @ V2"
  let ?s = "\<lambda>b. if hd b = CHR '' '' then tl b else b"
  let ?c1 = "dropCR (K @ '':'' @ V1 @ butlast nl)"
  let ?c2 = "dropCR ('' '' @ V2 @ butlast nl)"
  let ?c3 = "dropCR (K @ '':'' @ V1 @ V2 @ butlast nl)"
  let ?cv = "dropCR (V2 @ butlast nl)"
  have lf1: "LF \<notin> set ?l1" and lf2: "LF \<notin> set ?l2" and lf3: "LF \<notin> set (?l1 @ V2)"
    using lf by auto
  have len1: "length (?l1 @ nl) \<le> defaultBufSize" and len2: "length (?l2 @ nl) \<le> defaultBufSize"
    and len3: "length ((?l1 @ V2) @ nl) \<le> defaultBufSize"
    using len by auto
  have ne1: "dropCR (?l1 @ butlast nl) \<noteq> []" and ne2: "dropCR (?l2 @ butlast nl) \<noteq> []"
    and ne3: "dropCR ((?l1 @ V2) @ butlast nl) \<noteq> []"
    by (auto simp: dropCR_empty append_eq_Cons_conv)
  have d2: "?s ?c2 = ?cv"
    by (cases "V2 @ butlast nl = []") (simp_all add: dropCR_Cons, simp add: dropCR_def)
  have joined: "?s ?c1 @ ?cv = ?s ?c3"
  proof (cases "nl = [CR, LF]")
    case True
    then show ?thesis
      by (cases K) (auto simp: dropCR_def butlast_append)
  next
    case False
    with nl have n: "butlast nl = []"
      by auto
    show ?thesis
    proof (cases "V2 = []")
      case True
      with n show ?thesis by (simp add: dropCR_def)
    next
      case False
      with cr \<open>nl \<noteq> [CR, LF]\<close> have "dropCR ?l1 = ?l1"
        by (auto simp: dropCR_def)
      moreover from False have "dropCR (?l1 @ V2) = ?l1 @ dropCR V2"
        by (rule dropCR_append)
      ultimately show ?thesis
        using n by (cases K) auto
    qed
  qed
  have first: "readLogical buf (K @ '':'' @ V1 @ nl @ '' '' @ V2 @ nl @ rest) =
      readLogical (buf @ ?s ?c1) ('' '' @ V2 @ nl @ rest)"
    using readLogical_nl [OF nl lf1 len1 ne1, of buf "?l2 @ nl @ rest"] by simp
  have second: "readLogical (buf @ ?s ?c1) ('' '' @ V2 @ nl @ rest) =
      (if rest \<noteq> [] \<and> hd rest = CHR '' '' then readLogical (buf @ ?s ?c1 @ ?s ?c2) rest
       else Inr (buf @ ?s ?c1 @ ?s ?c2, rest))"
    using readLogical_nl [OF nl lf2 len2 ne2, of "buf @ ?s ?c1" rest]
    by (simp only: append_assoc)
  have third: "readLogical buf (K @ '':'' @ V1 @ V2 @ nl @ rest) =
      (if rest \<noteq> [] \<and> hd rest = CHR '' '' then readLogical (buf @ ?s ?c3) rest
       else Inr (buf @ ?s ?c3, rest))"
    using readLogical_nl [OF nl lf3 len3 ne3, of buf rest]
    by (simp only: append_assoc)
  show ?thesis
    by (simp only: first second third d2 joined)
qed

lemma ReadLine_long:
  assumes "LF \<notin> set l" "defaultBufSize \<le> length l"
  shows "\<exists>b r'. ReadLine (l @ rest) = Inr (b, True, r')"
proof -
  from assms(1) have "takeWhile (\<lambda>c. c \<noteq> LF) (l @ rest) = l @ takeWhile (\<lambda>c. c \<noteq> LF) rest"
    by (induction l) auto
  with assms(2) have "defaultBufSize \<le> length (takeWhile (\<lambda>c. c \<noteq> LF) (l @ rest))"
    by simp
  moreover from assms(2) have "l @ rest \<noteq> []"
    by (auto simp: defaultBufSize_def)
  ultimately show ?thesis
    by (simp add: ReadLine_def Let_def)
qed

lemma decodeLine_long:
  assumes "LF \<notin> set l" "defaultBufSize \<le> length l"
  shows "decodeLine (l @ rest) = Inl LongLine"
proof -
  from ReadLine_long [OF assms] obtain b r' where "ReadLine (l @ rest) = Inr (b, True, r')"
    by blast
  then have "readLogical [] (l @ rest) = Inl LongLine"
    by (subst readLogical.simps) simp
  then show ?thesis
    by (simp add: decodeLine_def)
qed

lemma decodeLine_not_long:
  "readLogical [] r = Inr (buf, r') \<Longrightarrow> decodeLine r \<noteq> Inl LongLine"
  by (simp add: decodeLine_def Let_def)

subsection \<open>Positions and the result of Decode\<close>

lemma calendar_at_Decode:
  "calendar_at rd c r \<Longrightarrow> Decode rd = Decode_loop c r"
proof (induction rule: calendar_at.induct)
  case start
  show ?case by (simp add: Decode_def)
next
  case (other c r key "value" r')
  then show ?case by (simp add: Decode_loop_other)
next
  case (begin_calendar r r')
  then show ?case by (simp add: Decode_loop_begin_calendar)
next
  case (begin_other cal r "value" r')
  then show ?case by (simp add: Decode_loop_begin_other)
next
  case (event cal r r' e r'')
  then show ?case by (simp add: Decode_loop_event)
qed

lemma event_at_decodeEvent:
  "event_at rd cal e r \<Longrightarrow>
   \<exists>r0 r1. calendar_at rd (Some cal) r0 \<and> decodeLine r0 = Inr (''BEGIN'', ''VEVENT'', r1) \<and>
     decodeEvent r1 = decodeEvent_loop e r"
proof (induction rule: event_at.induct)
  case (enter cal r r')
  then show ?case
    by (auto simp: decodeEvent_def)
next
  case (field cal e r key "value" r' e')
  then show ?case
    by (auto simp: decodeEvent_loop_field)
qed

lemma event_at_Decode:
  assumes "event_at rd cal e r"
  shows "Decode rd =
     (case decodeEvent_loop e r of
        Inl err \<Rightarrow> Return None (Some err)
      | Inr (e', r'') \<Rightarrow> Decode_loop (Some (cal\<lparr>Events := Events cal @ [e']\<rparr>)) r'')"
proof -
  from event_at_decodeEvent [OF assms] obtain r0 r1 where
    "calendar_at rd (Some cal) r0" "decodeLine r0 = Inr (''BEGIN'', ''VEVENT'', r1)"
    "decodeEvent r1 = decodeEvent_loop e r"
    by blast
  then show ?thesis
    by (simp add: calendar_at_Decode Decode_loop_event)
qed

lemma event_at_finished:
  assumes "event_at rd cal e r" "decodeLine r = Inr (''END'', ''VEVENT'', r')"
  shows "calendar_at rd (Some (cal\<lparr>Events := Events cal @ [e]\<rparr>)) r'"
proof -
  from event_at_decodeEvent [OF assms(1)] obtain r0 r1 where
    a: "calendar_at rd (Some cal) r0" "decodeLine r0 = Inr (''BEGIN'', ''VEVENT'', r1)"
    "decodeEvent r1 = decodeEvent_loop e r"
    by blast
  from a(3) assms(2) have "decodeEvent r1 = Inr (e, r')"
    by (simp add: decodeEvent_loop_end)
  with a(1,2) show ?thesis
    by (rule calendar_at.event)
qed


subsection \<open>Timestamps\<close>

lemma atoi_digits: "atoi acc s = Some n \<Longrightarrow> list_all isDigit s"
  by (induction s arbitrary: acc) (auto split: if_splits)

lemma timeParse_error: "timeParse v = Inl err \<Longrightarrow> err = ParseError"
  by (auto simp: timeParse_def split: if_splits option.splits)

lemma digits_at:
  assumes "list_all isDigit (take n (drop k v))" "i < n" "k + i < length v"
  shows "isDigit (v ! (k + i))"
proof -
  from assms(2,3) have "take n (drop k v) ! i = v ! (k + i)" "i < length (take n (drop k v))"
    by simp_all
  with assms(1) show ?thesis
    by (metis list_all_length)
qed

lemma timeParse_matchesLayout:
  assumes "timeParse v = Inr t"
  shows "matchesLayout v"
proof -
  from assms have len: "length v = 16" and tz: "v ! 8 = CHR ''T''" "v ! 15 = CHR ''Z''"
    by (auto simp: timeParse_def split: if_splits)
  from assms len tz have d: "list_all isDigit (take 4 (drop 0 v))"
    "list_all isDigit (take 2 (drop 4 v))" "list_all isDigit (take 2 (drop 6 v))"
    "list_all isDigit (take 2 (drop 9 v))" "list_all isDigit (take 2 (drop 11 v))"
    "list_all isDigit (take 2 (drop 13 v))"
    by (auto simp: timeParse_def split: if_splits option.splits dest: atoi_digits)
  from len have y: "isDigit (v ! 0)" "isDigit (v ! 1)" "isDigit (v ! 2)" "isDigit (v ! 3)"
    using digits_at [OF d(1), of 0] digits_at [OF d(1), of 1]
      digits_at [OF d(1), of 2] digits_at [OF d(1), of 3]
    by (simp_all add: numeral_2_eq_2)
  from len have mo: "isDigit (v ! 4)" "isDigit (v ! 5)"
    using digits_at [OF d(2), of 0] digits_at [OF d(2), of 1] by simp_all
  from len have da: "isDigit (v ! 6)" "isDigit (v ! 7)"
    using digits_at [OF d(3), of 0] digits_at [OF d(3), of 1] by simp_all
  from len have h: "isDigit (v ! 9)" "isDigit (v ! 10)"
    using digits_at [OF d(4), of 0] digits_at [OF d(4), of 1] by simp_all
  from len have mi: "isDigit (v ! 11)" "isDigit (v ! 12)"
    using digits_at [OF d(5), of 0] digits_at [OF d(5), of 1] by simp_all
  from len have se: "isDigit (v ! 13)" "isDigit (v ! 14)"
    using digits_at [OF d(6), of 0] digits_at [OF d(6), of 1] by simp_all
  from len tz y mo da h mi se show ?thesis
    by (simp add: matchesLayout_def)
qed

lemma decodeTime_bad_layout:
  "\<not> matchesLayout v \<Longrightarrow> decodeTime v = Inl ParseError"
  using timeParse_matchesLayout [of v] timeParse_error [of v]
  by (cases "timeParse v") (auto simp: decodeTime_def)

lemma setField_other:
  "key \<notin> {''UID'', ''DTSTART'', ''DTEND'', ''SUMMARY'', ''LOCATION'', ''DESCRIPTION''} \<Longrightarrow>
   setField key value e = Inr e"
  by (simp add: setField_def)

subsection \<open>Decoding a prefix does not depend on what follows it\<close>

lemma line_end_append:
  assumes "line_end p1 r1" "r1 = p2 @ r2" "line_end p2 r2"
  shows "line_end (p1 @ p2) r2"
    and "new_line (p1 @ p2) t \<Longrightarrow> new_line p1 (p2 @ t) \<and> new_line p2 t"
  using assms by (auto simp: line_end_def new_line_def)

lemma ReadLine_shape:
  assumes "ReadLine r = Inr (b, False, r1)"
  shows "(\<exists>l. r = l @ LF # r1 \<and> LF \<notin> set l \<and> length l < defaultBufSize \<and> b = dropCR l) \<or>
         (r1 = [] \<and> r \<noteq> [] \<and> LF \<notin> set r)"
proof -
  let ?l = "takeWhile (\<lambda>c. c \<noteq> LF) r" and ?t = "dropWhile (\<lambda>c. c \<noteq> LF) r"
  have r: "r = ?l @ ?t"
    by simp
  have l: "LF \<notin> set ?l"
    by (auto dest: set_takeWhileD)
  from assms have ne: "r \<noteq> []" and small: "length ?l < defaultBufSize"
    by (auto simp: ReadLine_def Let_def split: if_splits)
  show ?thesis
  proof (cases "?t = []")
    case True
    with assms ne small have "r1 = []"
      by (auto simp: ReadLine_def Let_def split: if_splits)
    moreover from True have "LF \<notin> set r"
      by (auto simp: dropWhile_eq_Nil_conv)
    ultimately show ?thesis
      using ne by simp
  next
    case False
    with assms ne small have b: "b = dropCR ?l" and r1: "r1 = tl ?t"
      by (auto simp: ReadLine_def Let_def split: if_splits)
    from False have "hd ?t = LF"
      using hd_dropWhile [of "\<lambda>c. c \<noteq> LF" r] by auto
    with False r1 have "?t = LF # r1"
      by (cases ?t) auto
    with r have "r = ?l @ LF # r1"
      by simp
    with l small b show ?thesis
      by blast
  qed
qed

lemma readLogical_local:
  "readLogical buf r = Inr (line, r') \<Longrightarrow>
   \<exists>p. r = p @ r' \<and> line_end p r' \<and>
     (\<forall>t. new_line p t \<longrightarrow> readLogical buf (p @ t) = Inr (line, t))"
proof (induction buf r rule: readLogical.induct)
  case (1 buf r)
  from "1.prems" obtain b isP r1 where rl0: "ReadLine r = Inr (b, isP, r1)"
    by (subst (asm) readLogical.simps) (auto split: sum.splits)
  from "1.prems" rl0 have ok: "\<not> isP" "length b \<noteq> 0"
    by (subst (asm) readLogical.simps, auto split: if_splits)+
  from rl0 ok have rl: "ReadLine r = Inr (b, False, r1)"
    by simp
  let ?b = "if hd b = CHR '' '' then tl b else b"
  show ?case
  proof (cases "Peek1 r1 = Inr CHR '' ''")
    case False
    with "1.prems" rl ok have res: "r' = r1" "line = buf @ ?b"
      by (subst (asm) readLogical.simps, auto simp: Let_def split: sum.splits if_splits)+
    from False have peek: "r1 = [] \<or> hd r1 \<noteq> CHR '' ''"
      by (cases r1) (auto simp: Peek1_def)
    from ReadLine_shape [OF rl] show ?thesis
    proof
      assume "\<exists>l. r = l @ LF # r1 \<and> LF \<notin> set l \<and> length l < defaultBufSize \<and> b = dropCR l"
      then obtain l where l: "r = l @ LF # r1" "LF \<notin> set l" "length l < defaultBufSize"
        "b = dropCR l"
        by blast
      from ok l(4) have ne: "dropCR l \<noteq> []"
        by simp
      have "readLogical buf ((l @ [LF]) @ t) = Inr (line, t)" if "new_line (l @ [LF]) t" for t
        using that readLogical_LF [OF l(2,3) ne, of buf t] res(2)
        unfolding l(4) by (auto simp: new_line_def)
      moreover have "line_end (l @ [LF]) r'"
        using peek res(1) by (simp add: line_end_def)
      moreover have "r = (l @ [LF]) @ r'"
        using l(1) res(1) by simp
      ultimately show ?thesis
        by blast
    next
      assume a: "r1 = [] \<and> r \<noteq> [] \<and> LF \<notin> set r"
      have "readLogical buf (r @ t) = Inr (line, t)" if "new_line r t" for t
      proof -
        from that a have "LF \<in> set r"
          using last_in_set [of r] by (auto simp: new_line_def)
        with a show ?thesis by simp
      qed
      moreover from a res(1) have "line_end r r'" "r = r @ r'"
        by (simp_all add: line_end_def)
      ultimately show ?thesis
        by blast
    qed
  next
    case True
    then have r1: "r1 \<noteq> []" "hd r1 = CHR '' ''"
      by (cases r1; simp add: Peek1_def)+
    from "1.prems" rl ok True have rec: "readLogical (buf @ ?b) r1 = Inr (line, r')"
      by (subst (asm) readLogical.simps) (simp add: Let_def)
    have "\<not> CHR '' '' \<noteq> CHR '' ''"
      by simp
    from "1.IH" [OF rl0 refl refl ok(1) ok(2) refl refl True this rec] obtain p2 where
      p2: "r1 = p2 @ r'" "line_end p2 r'"
        "\<And>t. new_line p2 t \<Longrightarrow> readLogical (buf @ ?b) (p2 @ t) = Inr (line, t)"
      by blast
    from ReadLine_shape [OF rl] r1 obtain l where
      l: "r = l @ LF # r1" "LF \<notin> set l" "length l < defaultBufSize" "b = dropCR l"
      by blast
    from ok l(4) have ne: "dropCR l \<noteq> []"
      by simp
    from p2(2) have p2ne: "p2 \<noteq> []"
      by (simp add: line_end_def)
    with p2(1) r1 have hd2: "hd p2 = CHR '' ''"
      by (cases p2) auto
    have "readLogical buf (((l @ [LF]) @ p2) @ t) = Inr (line, t)"
      if "new_line ((l @ [LF]) @ p2) t" for t
    proof -
      from that p2ne have "new_line p2 t"
        by (simp add: new_line_def)
      then have "readLogical (buf @ ?b) (p2 @ t) = Inr (line, t)"
        by (rule p2(3))
      then have "readLogical (buf @ (if hd (dropCR l) = CHR '' '' then tl (dropCR l)
          else dropCR l)) (p2 @ t) = Inr (line, t)"
        unfolding l(4) .
      with readLogical_LF [OF l(2,3) ne, of buf "p2 @ t"] p2ne hd2 show ?thesis
        by simp
    qed
    moreover from p2(2) p2ne have "line_end ((l @ [LF]) @ p2) r'"
      by (simp add: line_end_def)
    moreover from l(1) p2(1) have "r = ((l @ [LF]) @ p2) @ r'"
      by simp
    ultimately show ?thesis
      by blast
  qed
qed

lemma decodeLine_local:
  assumes "decodeLine r = Inr (key, value, r')"
  shows "\<exists>p. r = p @ r' \<and> line_end p r' \<and>
     (\<forall>t. new_line p t \<longrightarrow> decodeLine (p @ t) = Inr (key, value, t))"
proof -
  from assms obtain line where rl: "readLogical [] r = Inr (line, r')"
    and sp: "length (SplitN2 line) = 2" "key = SplitN2 line ! 0" "value = SplitN2 line ! 1"
    by (auto simp: decodeLine_def Let_def split: sum.splits if_splits)
  from readLogical_local [OF rl] obtain p where
    p: "r = p @ r'" "line_end p r'"
      "\<And>t. new_line p t \<Longrightarrow> readLogical [] (p @ t) = Inr (line, t)"
    by blast
  have "decodeLine (p @ t) = Inr (key, value, t)" if "new_line p t" for t
    using p(3) [OF that] sp by (simp add: decodeLine_def Let_def)
  with p(1,2) show ?thesis
    by blast
qed

lemma decodeEvent_loop_local:
  "decodeEvent_loop e r = Inr (e', r') \<Longrightarrow>
   \<exists>p. r = p @ r' \<and> line_end p r' \<and>
     (\<forall>t. new_line p t \<longrightarrow> decodeEvent_loop e (p @ t) = Inr (e', t))"
proof (induction e r rule: decodeEvent_loop.induct)
  case (1 e r)
  from "1.prems" obtain key val r1 where dl: "decodeLine r = Inr (key, val, r1)"
    by (subst (asm) decodeEvent_loop.simps) (auto split: sum.splits)
  from decodeLine_local [OF dl] obtain p1 where
    p1: "r = p1 @ r1" "line_end p1 r1"
      "\<And>t. new_line p1 t \<Longrightarrow> decodeLine (p1 @ t) = Inr (key, val, t)"
    by blast
  show ?case
  proof (cases "key = ''END''")
    case True
    with "1.prems" dl have res: "val = ''VEVENT''" "e' = e" "r' = r1"
      by (subst (asm) decodeEvent_loop.simps, auto split: if_splits)+
    have "decodeEvent_loop e (p1 @ t) = Inr (e', t)" if "new_line p1 t" for t
      using p1(3) [OF that] True res by (simp add: decodeEvent_loop_end)
    with p1(1,2) res(3) show ?thesis
      by blast
  next
    case False
    with "1.prems" dl obtain e1 where sf: "setField key val e = Inr e1"
      and rec: "decodeEvent_loop e1 r1 = Inr (e', r')"
      by (subst (asm) decodeEvent_loop.simps) (auto split: sum.splits)
    from "1.IH" [OF dl refl refl False sf rec] obtain p2 where
      p2: "r1 = p2 @ r'" "line_end p2 r'"
        "\<And>t. new_line p2 t \<Longrightarrow> decodeEvent_loop e1 (p2 @ t) = Inr (e', t)"
      by blast
    have "decodeEvent_loop e ((p1 @ p2) @ t) = Inr (e', t)" if "new_line (p1 @ p2) t" for t
    proof -
      from line_end_append(2) [OF p1(2) p2(1,2) that]
      have a: "new_line p1 (p2 @ t)" and b: "new_line p2 t"
        by simp_all
      from p1(3) [OF a] False sf p2(3) [OF b] show ?thesis
        by (simp add: decodeEvent_loop_field)
    qed
    moreover have "line_end (p1 @ p2) r'"
      by (rule line_end_append(1) [OF p1(2) p2(1,2)])
    moreover from p1(1) p2(1) have "r = (p1 @ p2) @ r'"
      by simp
    ultimately show ?thesis
      by blast
  qed
qed

text \<open>Extending a position that is known for every continuation of the prefix.\<close>

lemma calendar_at_extend:
  assumes inv: "(r0 = rd \<and> c0 = None) \<or>
      (\<exists>p. rd = p @ r0 \<and> line_end p r0 \<and> (\<forall>t. new_line p t \<longrightarrow> calendar_at (p @ t) c0 t))"
    and r0: "r0 = p1 @ r" "line_end p1 r"
    and step: "\<And>t rd'. new_line p1 t \<Longrightarrow> calendar_at rd' c0 (p1 @ t) \<Longrightarrow> calendar_at rd' c t"
  shows "\<exists>p. rd = p @ r \<and> line_end p r \<and> (\<forall>t. new_line p t \<longrightarrow> calendar_at (p @ t) c t)"
  using inv
proof
  assume a: "r0 = rd \<and> c0 = None"
  have "calendar_at (p1 @ t) c t" if "new_line p1 t" for t
    using that
  proof (rule step)
    from a show "calendar_at (p1 @ t) c0 (p1 @ t)"
      by (simp add: calendar_at.start)
  qed
  with a r0 show ?thesis
    by blast
next
  assume "\<exists>p. rd = p @ r0 \<and> line_end p r0 \<and> (\<forall>t. new_line p t \<longrightarrow> calendar_at (p @ t) c0 t)"
  then obtain p0 where p0: "rd = p0 @ r0" "line_end p0 r0"
    "\<And>t. new_line p0 t \<Longrightarrow> calendar_at (p0 @ t) c0 t"
    by blast
  have "calendar_at ((p0 @ p1) @ t) c t" if "new_line (p0 @ p1) t" for t
  proof -
    from line_end_append(2) [OF p0(2) r0 that]
    have a: "new_line p0 (p1 @ t)" and b: "new_line p1 t"
      by simp_all
    from p0(3) [OF a] have "calendar_at ((p0 @ p1) @ t) c0 (p1 @ t)"
      by simp
    with b show ?thesis
      by (rule step)
  qed
  moreover have "line_end (p0 @ p1) r"
    by (rule line_end_append(1) [OF p0(2) r0])
  moreover from p0(1) r0(1) have "rd = (p0 @ p1) @ r"
    by simp
  ultimately show ?thesis
    by blast
qed

lemma calendar_at_local:
  "calendar_at rd c r \<Longrightarrow>
   (r = rd \<and> c = None) \<or>
   (\<exists>p. rd = p @ r \<and> line_end p r \<and> (\<forall>t. new_line p t \<longrightarrow> calendar_at (p @ t) c t))"
proof (induction rule: calendar_at.induct)
  case start
  show ?case by simp
next
  case (other c r key val r')
  from decodeLine_local [OF other.hyps(2)] obtain p1 where
    p1: "r = p1 @ r'" "line_end p1 r'"
      "\<And>t. new_line p1 t \<Longrightarrow> decodeLine (p1 @ t) = Inr (key, val, t)"
    by blast
  have "calendar_at rd' c t" if "new_line p1 t" "calendar_at rd' c (p1 @ t)" for t rd'
    using that(2) p1(3) [OF that(1)] other.hyps(3,4) by (rule calendar_at.other)
  from calendar_at_extend [OF other.IH p1(1,2) this] show ?case
    by blast
next
  case (begin_calendar r r')
  from decodeLine_local [OF begin_calendar.hyps(2)] obtain p1 where
    p1: "r = p1 @ r'" "line_end p1 r'"
      "\<And>t. new_line p1 t \<Longrightarrow> decodeLine (p1 @ t) = Inr (''BEGIN'', ''VCALENDAR'', t)"
    by blast
  have "calendar_at rd' (Some newCalendar) t"
    if "new_line p1 t" "calendar_at rd' None (p1 @ t)" for t rd'
    using that(2) p1(3) [OF that(1)] by (rule calendar_at.begin_calendar)
  from calendar_at_extend [OF begin_calendar.IH p1(1,2) this] show ?case
    by blast
next
  case (begin_other cal r val r')
  from decodeLine_local [OF begin_other.hyps(2)] obtain p1 where
    p1: "r = p1 @ r'" "line_end p1 r'"
      "\<And>t. new_line p1 t \<Longrightarrow> decodeLine (p1 @ t) = Inr (''BEGIN'', val, t)"
    by blast
  have "calendar_at rd' (Some cal) t"
    if "new_line p1 t" "calendar_at rd' (Some cal) (p1 @ t)" for t rd'
    using that(2) p1(3) [OF that(1)] begin_other.hyps(3) by (rule calendar_at.begin_other)
  from calendar_at_extend [OF begin_other.IH p1(1,2) this] show ?case
    by blast
next
  case (event cal r r' e r'')
  from decodeLine_local [OF event.hyps(2)] obtain p1 where
    p1: "r = p1 @ r'" "line_end p1 r'"
      "\<And>t. new_line p1 t \<Longrightarrow> decodeLine (p1 @ t) = Inr (''BEGIN'', ''VEVENT'', t)"
    by blast
  from decodeEvent_loop_local [OF event.hyps(3) [unfolded decodeEvent_def]] obtain p2 where
    p2: "r' = p2 @ r''" "line_end p2 r''"
      "\<And>t. new_line p2 t \<Longrightarrow> decodeEvent (p2 @ t) = Inr (e, t)"
    unfolding decodeEvent_def by blast
  have "calendar_at rd' (Some (cal\<lparr>Events := Events cal @ [e]\<rparr>)) t"
    if "new_line (p1 @ p2) t" "calendar_at rd' (Some cal) ((p1 @ p2) @ t)" for t rd'
  proof -
    from line_end_append(2) [OF p1(2) p2(1,2) that(1)]
    have a: "new_line p1 (p2 @ t)" and b: "new_line p2 t"
      by simp_all
    from that(2) have "calendar_at rd' (Some cal) (p1 @ p2 @ t)"
      by simp
    from this p1(3) [OF a] p2(3) [OF b] show ?thesis
      by (rule calendar_at.event)
  qed
  moreover have "line_end (p1 @ p2) r''"
    by (rule line_end_append(1) [OF p1(2) p2(1,2)])
  moreover from p1(1) p2(1) have "r = (p1 @ p2) @ r''"
    by simp
  ultimately show ?case
    using calendar_at_extend [OF event.IH] by blast
qed

lemma event_at_local:
  "event_at rd cal e r \<Longrightarrow>
   \<exists>p. rd = p @ r \<and> line_end p r \<and> (\<forall>t. new_line p t \<longrightarrow> event_at (p @ t) cal e t)"
proof (induction rule: event_at.induct)
  case (enter cal r r')
  from decodeLine_local [OF enter.hyps(2)] obtain p1 where
    p1: "r = p1 @ r'" "line_end p1 r'"
      "\<And>t. new_line p1 t \<Longrightarrow> decodeLine (p1 @ t) = Inr (''BEGIN'', ''VEVENT'', t)"
    by blast
  from calendar_at_local [OF enter.hyps(1)] show ?case
  proof
    assume a: "r = rd \<and> Some cal = None"
    then show ?thesis by simp
  next
    assume "\<exists>p. rd = p @ r \<and> line_end p r \<and>
      (\<forall>t. new_line p t \<longrightarrow> calendar_at (p @ t) (Some cal) t)"
    then obtain p0 where p0: "rd = p0 @ r" "line_end p0 r"
      "\<And>t. new_line p0 t \<Longrightarrow> calendar_at (p0 @ t) (Some cal) t"
      by blast
    have "event_at ((p0 @ p1) @ t) cal newEvent t" if "new_line (p0 @ p1) t" for t
    proof -
      from line_end_append(2) [OF p0(2) p1(1,2) that]
      have a: "new_line p0 (p1 @ t)" and b: "new_line p1 t"
        by simp_all
      from p0(3) [OF a] have "calendar_at ((p0 @ p1) @ t) (Some cal) (p1 @ t)"
        by simp
      from this p1(3) [OF b] show ?thesis
        by (rule event_at.enter)
    qed
    moreover have "line_end (p0 @ p1) r'"
      by (rule line_end_append(1) [OF p0(2) p1(1,2)])
    moreover from p0(1) p1(1) have "rd = (p0 @ p1) @ r'"
      by simp
    ultimately show ?thesis
      by blast
  qed
next
  case (field cal e r key val r' e')
  from decodeLine_local [OF field.hyps(2)] obtain p1 where
    p1: "r = p1 @ r'" "line_end p1 r'"
      "\<And>t. new_line p1 t \<Longrightarrow> decodeLine (p1 @ t) = Inr (key, val, t)"
    by blast
  from field.IH obtain p0 where p0: "rd = p0 @ r" "line_end p0 r"
    "\<And>t. new_line p0 t \<Longrightarrow> event_at (p0 @ t) cal e t"
    by blast
  have "event_at ((p0 @ p1) @ t) cal e' t" if "new_line (p0 @ p1) t" for t
  proof -
    from line_end_append(2) [OF p0(2) p1(1,2) that]
    have a: "new_line p0 (p1 @ t)" and b: "new_line p1 t"
      by simp_all
    from p0(3) [OF a] have "event_at ((p0 @ p1) @ t) cal e (p1 @ t)"
      by simp
    from this p1(3) [OF b] field.hyps(3,4) show ?thesis
      by (rule event_at.field)
  qed
  moreover have "line_end (p0 @ p1) r'"
    by (rule line_end_append(1) [OF p0(2) p1(1,2)])
  moreover from p0(1) p1(1) have "rd = (p0 @ p1) @ r'"
    by simp
  ultimately show ?case
    by blast
qed

lemma calendar_at_change_rest:
  assumes "calendar_at (pre @ r) c r" and "pre = [] \<or> new_line pre t"
  shows "calendar_at (pre @ t) c t"
  using calendar_at_local [OF assms(1)]
proof
  assume "r = pre @ r \<and> c = None"
  then show ?thesis
    by (simp add: calendar_at.start)
next
  assume "\<exists>p. pre @ r = p @ r \<and> line_end p r \<and>
    (\<forall>t. new_line p t \<longrightarrow> calendar_at (p @ t) c t)"
  then obtain p where p: "pre @ r = p @ r" "line_end p r"
    "\<And>t. new_line p t \<Longrightarrow> calendar_at (p @ t) c t"
    by blast
  from p(1) have "p = pre"
    by simp
  with p(2,3) assms(2) show ?thesis
    by (auto simp: line_end_def)
qed

lemma calendar_at_line_end:
  assumes "calendar_at (pre @ r) c r" "pre \<noteq> []"
  shows "line_end pre r"
  using calendar_at_local [OF assms(1)] assms(2) by auto

lemma event_at_line_end:
  assumes "event_at (pre @ r) cal e r"
  shows "line_end pre r"
  using event_at_local [OF assms(1)] by auto

lemma event_at_change_rest:
  assumes "event_at (pre @ r) cal e r" and "new_line pre t"
  shows "event_at (pre @ t) cal e t"
  using event_at_local [OF assms(1)] assms(2) by auto

lemma cutColon_key:
  "CHR '':'' \<notin> set key \<Longrightarrow> cutColon (key @ CHR '':'' # v) = Some (key, v)"
  by (induction key) auto

lemma decodeLine_inserted:
  assumes nl: "nl = [LF] \<or> nl = [CR, LF]"
    and key: "CHR '':'' \<notin> set key" "key = [] \<or> hd key \<noteq> CHR '' ''"
    and lf: "LF \<notin> set (key @ value)"
    and len: "length (key @ '':'' @ value @ nl) \<le> defaultBufSize"
    and post: "post = [] \<or> hd post \<noteq> CHR '' ''"
  shows "decodeLine (key @ '':'' @ value @ nl @ post) =
         Inr (key, dropCR (value @ butlast nl), post)"
proof -
  let ?l = "key @ '':'' @ value"
  have c: "dropCR (?l @ butlast nl) = key @ CHR '':'' # dropCR (value @ butlast nl)"
  proof (cases "value @ butlast nl = []")
    case True
    then show ?thesis by (simp add: dropCR_def)
  next
    case False
    from dropCR_append [OF False, of "key @ '':''"] show ?thesis
      by simp
  qed
  from key(2) have hd: "hd (key @ CHR '':'' # dropCR (value @ butlast nl)) \<noteq> CHR '' ''"
    by (cases key) auto
  from lf have lf': "LF \<notin> set ?l"
    by auto
  from len have len': "length (?l @ nl) \<le> defaultBufSize"
    by simp
  have ne: "dropCR (?l @ butlast nl) \<noteq> []"
    unfolding c by simp
  have "readLogical [] (?l @ nl @ post) = Inr (key @ CHR '':'' # dropCR (value @ butlast nl), post)"
    using readLogical_nl [OF nl lf' len' ne, of "[]" post] post hd unfolding c by auto
  then show ?thesis
    using key(1) by (simp add: decodeLine_def SplitN2_def cutColon_key)
qed

lemma event_at_insert_line:
  assumes nl: "nl = [LF] \<or> nl = [CR, LF]"
    and key: "CHR '':'' \<notin> set key" "key = [] \<or> hd key \<noteq> CHR '' ''"
    and lf: "LF \<notin> set (key @ value)"
    and len: "length (key @ '':'' @ value @ nl) \<le> defaultBufSize"
    and pre: "post = [] \<longrightarrow> last pre = LF"
    and ev: "event_at (pre @ post) cal e post"
    and sf: "key \<noteq> ''END''" "setField key (dropCR (value @ butlast nl)) e = Inr e'"
  shows "event_at (pre @ key @ '':'' @ value @ nl @ post) cal e' post"
proof -
  let ?L = "key @ '':'' @ value @ nl"
  from key(2) have hdL: "hd (?L @ post) \<noteq> CHR '' ''" "?L @ post \<noteq> []"
    by (cases key; simp)+
  from ev have le: "line_end pre post"
    by (rule event_at_line_end)
  with pre hdL have "new_line pre (?L @ post)"
    by (auto simp: line_end_def new_line_def)
  with ev have "event_at (pre @ ?L @ post) cal e (?L @ post)"
    by (rule event_at_change_rest)
  moreover from le have "post = [] \<or> hd post \<noteq> CHR '' ''"
    by (auto simp: line_end_def)
  then have "decodeLine (?L @ post) = Inr (key, dropCR (value @ butlast nl), post)"
    using decodeLine_inserted [OF nl key lf len] by simp
  ultimately have "event_at (pre @ ?L @ post) cal e' post"
    using sf by (rule event_at.field)
  then show ?thesis
    by simp
qed

subsection \<open>Sorting\<close>


lemma length_insr [simp]: "length (insr x rs) = Suc (length rs)"
  by (induction rs) auto

lemma set_insr [simp]: "set (insr x rs) = insert x (set rs)"
  by (induction rs) auto












subsection \<open>Claims\<close>

text \<open>
  C1. A stream whose first logical line is not \<open>BEGIN:VCALENDAR\<close> is to be answered
  with a structural error and a nil calendar, and with no other failure. When that first
  line is \<open>END:VCALENDAR\<close> the loop of \<open>Decode\<close> is left with the calendar pointer
  still nil, and sorting \<open>c.Event\<close> dereferences it: the call panics instead of
  returning the error \<open>didn't find BEGIN:VCALENDAR\<close>.
\<close>

theorem Decode_END_VCALENDAR_first_panics:
  "Decode (''END:VCALENDAR'' @ [LF]) = Panic"
  by code_simp

text \<open>
  C2. An event represents an absent \<open>DTSTART\<close> or \<open>DTEND\<close> by the zero value of
  \<open>time.Time\<close>, the instant 0001-01-01T00:00:00Z that \<open>IsZero\<close> tests, and not by a
  separate unset state. A new event has both fields at that value, only a \<open>DTSTART\<close>
  line changes \<open>Start\<close> and only a \<open>DTEND\<close> line changes \<open>End\<close>, and the value
  \<open>00010101T000000Z\<close> parses to that same instant: adding the line
  \<open>DTSTART:00010101T000000Z\<close> to an event whose start is unset (or the same for
  \<open>DTEND\<close>) changes nothing in what \<open>Decode\<close> returns. The comparator \<open>Less\<close>
  looks at the value only and puts every event with a zero start first.
\<close>

theorem absent_start_is_zero_time:
  assumes nl: "nl = [LF] \<or> nl = [CR, LF]"
    and pre: "post = [] \<longrightarrow> last pre = LF"
  shows "Start newEvent = zeroTime \<and> End newEvent = zeroTime \<and> IsZero zeroTime \<and>
         (\<forall>key value e e'. setField key value e = Inr e' \<longrightarrow>
            (key \<noteq> ''DTSTART'' \<longrightarrow> Start e' = Start e) \<and>
            (key \<noteq> ''DTEND'' \<longrightarrow> End e' = End e)) \<and>
         decodeTime ''00010101T000000Z'' = Inr zeroTime \<and>
         (event_at (pre @ post) cal e post \<and> Start e = zeroTime \<longrightarrow>
            event_at (pre @ ''DTSTART'' @ '':'' @ ''00010101T000000Z'' @ nl @ post) cal e post \<and>
            Decode (pre @ ''DTSTART'' @ '':'' @ ''00010101T000000Z'' @ nl @ post) =
              Decode (pre @ post)) \<and>
         (event_at (pre @ post) cal e post \<and> End e = zeroTime \<longrightarrow>
            event_at (pre @ ''DTEND'' @ '':'' @ ''00010101T000000Z'' @ nl @ post) cal e post \<and>
            Decode (pre @ ''DTEND'' @ '':'' @ ''00010101T000000Z'' @ nl @ post) =
              Decode (pre @ post)) \<and>
         (\<forall>l i j. IsZero (Start (l ! i)) \<longrightarrow> Less l i j)"
proof -
  let ?v = "''00010101T000000Z''"
  have zero: "decodeTime ?v = Inr zeroTime"
    by code_simp
  have v: "dropCR (?v @ butlast nl) = ?v"
    using nl by (auto simp: dropCR_def)
  have fields: "\<forall>key value e e'. setField key value e = Inr e' \<longrightarrow>
      (key \<noteq> ''DTSTART'' \<longrightarrow> Start e' = Start e) \<and> (key \<noteq> ''DTEND'' \<longrightarrow> End e' = End e)"
    by (auto simp: setField_def split: if_splits sum.splits)
  have same: "Decode (pre @ L @ post) = Decode (pre @ post)"
    if "event_at (pre @ post) cal e post" "event_at (pre @ L @ post) cal e post" for L
    using event_at_Decode [OF that(1)] event_at_Decode [OF that(2)] by (simp only:)
  have k1: "CHR '':'' \<notin> set ''DTSTART''" "''DTSTART'' = [] \<or> hd ''DTSTART'' \<noteq> CHR '' ''"
    "LF \<notin> set (''DTSTART'' @ ?v)" "''DTSTART'' \<noteq> ''END''"
    by simp_all
  have k2: "CHR '':'' \<notin> set ''DTEND''" "''DTEND'' = [] \<or> hd ''DTEND'' \<noteq> CHR '' ''"
    "LF \<notin> set (''DTEND'' @ ?v)" "''DTEND'' \<noteq> ''END''"
    by simp_all
  have l1: "length (''DTSTART'' @ '':'' @ ?v @ nl) \<le> defaultBufSize"
    and l2: "length (''DTEND'' @ '':'' @ ?v @ nl) \<le> defaultBufSize"
    using nl by (auto simp: defaultBufSize_def)
  have st: "event_at (pre @ ''DTSTART'' @ '':'' @ ?v @ nl @ post) cal e post"
    if a: "event_at (pre @ post) cal e post" "Start e = zeroTime"
  proof -
    have "setField ''DTSTART'' ?v e = Inr (e\<lparr>Start := zeroTime\<rparr>)"
      by (simp add: setField_def zero)
    with a(2) have "setField ''DTSTART'' ?v e = Inr e"
      by simp
    then have sf: "setField ''DTSTART'' (dropCR (?v @ butlast nl)) e = Inr e"
      by (simp only: v)
    show ?thesis
      by (rule event_at_insert_line [OF nl k1(1,2,3) l1 pre a(1) k1(4) sf])
  qed
  have en: "event_at (pre @ ''DTEND'' @ '':'' @ ?v @ nl @ post) cal e post"
    if a: "event_at (pre @ post) cal e post" "End e = zeroTime"
  proof -
    have "setField ''DTEND'' ?v e = Inr (e\<lparr>End := zeroTime\<rparr>)"
      by (simp add: setField_def zero)
    with a(2) have "setField ''DTEND'' ?v e = Inr e"
      by simp
    then have sf: "setField ''DTEND'' (dropCR (?v @ butlast nl)) e = Inr e"
      by (simp only: v)
    show ?thesis
      by (rule event_at_insert_line [OF nl k2(1,2,3) l2 pre a(1) k2(4) sf])
  qed
  have new: "Start newEvent = zeroTime" "End newEvent = zeroTime" "IsZero zeroTime"
    by (simp_all add: newEvent_def zeroTime_def IsZero_def)
  have less: "\<forall>l i j. IsZero (Start (l ! i)) \<longrightarrow> Less l i j"
    by (simp add: Less_def)
  have A: "event_at (pre @ post) cal e post \<and> Start e = zeroTime \<longrightarrow>
      event_at (pre @ ''DTSTART'' @ '':'' @ ?v @ nl @ post) cal e post \<and>
      Decode (pre @ ''DTSTART'' @ '':'' @ ?v @ nl @ post) = Decode (pre @ post)"
  proof (intro impI conjI)
    assume a: "event_at (pre @ post) cal e post \<and> Start e = zeroTime"
    then show s: "event_at (pre @ ''DTSTART'' @ '':'' @ ?v @ nl @ post) cal e post"
      by (intro st) (rule conjunct1, assumption, rule conjunct2, assumption)
    from a have "event_at (pre @ post) cal e post" ..
    from same [OF this, of "''DTSTART'' @ '':'' @ ?v @ nl"] s
    show "Decode (pre @ ''DTSTART'' @ '':'' @ ?v @ nl @ post) = Decode (pre @ post)"
      by (simp only: append_assoc)
  qed
  have B: "event_at (pre @ post) cal e post \<and> End e = zeroTime \<longrightarrow>
      event_at (pre @ ''DTEND'' @ '':'' @ ?v @ nl @ post) cal e post \<and>
      Decode (pre @ ''DTEND'' @ '':'' @ ?v @ nl @ post) = Decode (pre @ post)"
  proof (intro impI conjI)
    assume a: "event_at (pre @ post) cal e post \<and> End e = zeroTime"
    then show s: "event_at (pre @ ''DTEND'' @ '':'' @ ?v @ nl @ post) cal e post"
      by (intro en) (rule conjunct1, assumption, rule conjunct2, assumption)
    from a have "event_at (pre @ post) cal e post" ..
    from same [OF this, of "''DTEND'' @ '':'' @ ?v @ nl"] s
    show "Decode (pre @ ''DTEND'' @ '':'' @ ?v @ nl @ post) = Decode (pre @ post)"
      by (simp only: append_assoc)
  qed
  show ?thesis
    by (intro conjI new fields zero A B less)
qed

theorem absent_start_is_zero_time_witness:
  "event_at
     (unlines [''BEGIN:VCALENDAR'', ''BEGIN:VEVENT'', ''UID:a''] @
      unlines [''END:VEVENT'', ''END:VCALENDAR''])
     newCalendar (newEvent\<lparr>UID := ''a''\<rparr>)
     (unlines [''END:VEVENT'', ''END:VCALENDAR'']) \<and>
   Start (newEvent\<lparr>UID := ''a''\<rparr>) = zeroTime \<and>
   Decode (unlines [''BEGIN:VCALENDAR'', ''BEGIN:VEVENT'', ''UID:a''] @
      ''DTSTART'' @ '':'' @ ''00010101T000000Z'' @ [LF] @
      unlines [''END:VEVENT'', ''END:VCALENDAR'']) =
   Decode (unlines [''BEGIN:VCALENDAR'', ''BEGIN:VEVENT'', ''UID:a''] @
      unlines [''END:VEVENT'', ''END:VCALENDAR''])"
proof -
  let ?pre = "unlines [''BEGIN:VCALENDAR'', ''BEGIN:VEVENT'', ''UID:a'']"
  let ?post = "unlines [''END:VEVENT'', ''END:VCALENDAR'']"
  let ?r1 = "unlines [''BEGIN:VEVENT'', ''UID:a''] @ ?post"
  let ?r2 = "unlines [''UID:a''] @ ?post"
  have b0: "decodeLine (?pre @ ?post) = Inr (''BEGIN'', ''VCALENDAR'', ?r1)"
    by code_simp
  have b1: "decodeLine ?r1 = Inr (''BEGIN'', ''VEVENT'', ?r2)"
    by code_simp
  have b2: "decodeLine ?r2 = Inr (''UID'', ''a'', ?post)"
    by code_simp
  have b3: "calendar_at (?pre @ ?post) (Some newCalendar) ?r1"
    by (rule calendar_at.begin_calendar [OF calendar_at.start b0])
  have b4: "event_at (?pre @ ?post) newCalendar newEvent ?r2"
    by (rule event_at.enter [OF b3 b1])
  have b5: "event_at (?pre @ ?post) newCalendar (newEvent\<lparr>UID := ''a''\<rparr>) ?post"
    by (rule event_at.field [OF b4 b2]) (simp_all add: setField_def)
  have z: "Start (newEvent\<lparr>UID := ''a''\<rparr>) = zeroTime"
    by (simp add: newEvent_def)
  have h: "[LF] = [LF] \<or> [LF] = [CR, LF]" "?post = [] \<longrightarrow> last ?pre = LF"
    by (simp_all add: unlines_def)
  have "Decode (?pre @ ''DTSTART'' @ '':'' @ ''00010101T000000Z'' @ [LF] @ ?post) =
      Decode (?pre @ ?post)"
    by (rule absent_start_is_zero_time [OF h, THEN conjunct2, THEN conjunct2, THEN conjunct2,
          THEN conjunct2, THEN conjunct2, THEN conjunct1, rule_format, OF conjI [OF b5 z],
          THEN conjunct2])
  with b5 z show ?thesis
    by (intro conjI)
qed

text \<open>
  The claim as stated fails: an event with no \<open>DTSTART\<close> and no \<open>DTEND\<close> line and an
  event with both lines at \<open>00010101T000000Z\<close> decode to the same calendar.
\<close>

theorem absent_start_counterexample:
  "Decode (unlines [''BEGIN:VCALENDAR'', ''BEGIN:VEVENT'', ''UID:a'', ''END:VEVENT'',
      ''END:VCALENDAR'']) =
     Return (Some \<lparr>Events = [newEvent\<lparr>UID := ''a''\<rparr>]\<rparr>) None \<and>
   Decode (unlines [''BEGIN:VCALENDAR'', ''BEGIN:VEVENT'', ''UID:a'',
      ''DTSTART:00010101T000000Z'', ''DTEND:00010101T000000Z'', ''END:VEVENT'',
      ''END:VCALENDAR'']) =
     Return (Some \<lparr>Events = [newEvent\<lparr>UID := ''a''\<rparr>]\<rparr>) None"
  by code_simp



text \<open>
  C4. Folding is transparent as long as the unfolded line fits the reader's buffer. Let the
  line end \<open>nl\<close> be a line feed, or a carriage return and a line feed, and let the key
  \<open>K\<close> and the value, split into \<open>V1\<close> and \<open>V2\<close>, have no line feed. If the
  physical line \<open>K:V1V2\<close> with its line end is at most 4096 bytes long, then the physical
  line \<open>K:V1\<close> followed by the physical line of one space and \<open>V2\<close> gives the same
  logical line, and wherever the decoder reads this line, in the loop of \<open>Decode\<close> or
  inside an event, the whole call returns the same result for the folded and for the
  unfolded stream. The space of the continuation line is removed and nothing is put in its
  place. (With bare line feeds a carriage return at the end of \<open>V1\<close> would be taken for
  a part of the line end once the line is folded after it; this case is left out.)
\<close>

theorem folded_line_decodes_as_unfolded:
  assumes nl: "nl = [LF] \<or> nl = [CR, LF]"
    and lf: "LF \<notin> set (K @ V1 @ V2)"
    and len: "length (K @ '':'' @ V1 @ V2 @ nl) \<le> defaultBufSize"
    and cr: "nl = [CR, LF] \<or> V2 = [] \<or> V1 = [] \<or> last V1 \<noteq> CR"
  shows "decodeLine (K @ '':'' @ V1 @ nl @ '' '' @ V2 @ nl @ rest) =
           decodeLine (K @ '':'' @ V1 @ V2 @ nl @ rest) \<and>
         (calendar_at (pre @ K @ '':'' @ V1 @ V2 @ nl @ rest) c (K @ '':'' @ V1 @ V2 @ nl @ rest) \<or>
          calendar_at (pre @ K @ '':'' @ V1 @ nl @ '' '' @ V2 @ nl @ rest) c
            (K @ '':'' @ V1 @ nl @ '' '' @ V2 @ nl @ rest) \<longrightarrow>
            Decode (pre @ K @ '':'' @ V1 @ nl @ '' '' @ V2 @ nl @ rest) =
              Decode (pre @ K @ '':'' @ V1 @ V2 @ nl @ rest)) \<and>
         (event_at (pre @ K @ '':'' @ V1 @ V2 @ nl @ rest) cal e (K @ '':'' @ V1 @ V2 @ nl @ rest) \<or>
          event_at (pre @ K @ '':'' @ V1 @ nl @ '' '' @ V2 @ nl @ rest) cal e
            (K @ '':'' @ V1 @ nl @ '' '' @ V2 @ nl @ rest) \<longrightarrow>
            Decode (pre @ K @ '':'' @ V1 @ nl @ '' '' @ V2 @ nl @ rest) =
              Decode (pre @ K @ '':'' @ V1 @ V2 @ nl @ rest))"
proof -
  let ?F = "K @ '':'' @ V1 @ nl @ '' '' @ V2 @ nl @ rest"
  let ?U = "K @ '':'' @ V1 @ V2 @ nl @ rest"
  have dl: "decodeLine ?F = decodeLine ?U"
    by (rule decodeLine_readLogical) (rule readLogical_folded [OF assms])
  have cl: "Decode_loop c ?F = Decode_loop c ?U" for c
    by (subst Decode_loop.simps, subst (2) Decode_loop.simps) (simp only: dl)
  have el: "decodeEvent_loop e ?F = decodeEvent_loop e ?U" for e
    by (subst decodeEvent_loop.simps, subst (2) decodeEvent_loop.simps) (simp only: dl)
  have ne: "?F \<noteq> []" "?U \<noteq> []" and hd: "hd ?F = hd ?U"
    by (cases K; simp)+
  have nlF: "new_line pre ?F" if "line_end pre ?U"
    using that ne hd by (simp add: line_end_def new_line_def)
  have nlU: "new_line pre ?U" if "line_end pre ?F"
    using that ne hd by (simp add: line_end_def new_line_def)
  have cal: "Decode (pre @ ?F) = Decode (pre @ ?U)"
    if "calendar_at (pre @ ?U) c ?U \<or> calendar_at (pre @ ?F) c ?F"
  proof -
    have "calendar_at (pre @ ?U) c ?U \<and> calendar_at (pre @ ?F) c ?F"
      using that
    proof
      assume a: "calendar_at (pre @ ?U) c ?U"
      then have "pre = [] \<or> new_line pre ?F"
        using calendar_at_line_end [OF a] nlF by blast
      with a show ?thesis
        by (simp only: calendar_at_change_rest [OF a] simp_thms)
    next
      assume a: "calendar_at (pre @ ?F) c ?F"
      then have "pre = [] \<or> new_line pre ?U"
        using calendar_at_line_end [OF a] nlU by blast
      with a show ?thesis
        by (simp only: calendar_at_change_rest [OF a] simp_thms)
    qed
    then have "Decode (pre @ ?U) = Decode_loop c ?U" "Decode (pre @ ?F) = Decode_loop c ?F"
      by (simp_all only: calendar_at_Decode)
    then show ?thesis
      by (simp only: cl)
  qed
  have ev: "Decode (pre @ ?F) = Decode (pre @ ?U)"
    if "event_at (pre @ ?U) cal e ?U \<or> event_at (pre @ ?F) cal e ?F"
  proof -
    have "event_at (pre @ ?U) cal e ?U \<and> event_at (pre @ ?F) cal e ?F"
      using that
    proof
      assume a: "event_at (pre @ ?U) cal e ?U"
      from nlF [OF event_at_line_end [OF a]] have "event_at (pre @ ?F) cal e ?F"
        by (rule event_at_change_rest [OF a])
      with a show ?thesis
        by (simp only: simp_thms)
    next
      assume a: "event_at (pre @ ?F) cal e ?F"
      from nlU [OF event_at_line_end [OF a]] have "event_at (pre @ ?U) cal e ?U"
        by (rule event_at_change_rest [OF a])
      with a show ?thesis
        by (simp only: simp_thms)
    qed
    then have "Decode (pre @ ?U) =
        (case decodeEvent_loop e ?U of
          Inl err \<Rightarrow> Return None (Some err)
        | Inr (e', r'') \<Rightarrow> Decode_loop (Some (cal\<lparr>Events := Events cal @ [e']\<rparr>)) r'')"
      and "Decode (pre @ ?F) =
        (case decodeEvent_loop e ?F of
          Inl err \<Rightarrow> Return None (Some err)
        | Inr (e', r'') \<Rightarrow> Decode_loop (Some (cal\<lparr>Events := Events cal @ [e']\<rparr>)) r'')"
      by (simp_all only: event_at_Decode)
    then show ?thesis
      by (simp only: el)
  qed
  from dl cal ev show ?thesis
    by (simp only: simp_thms) blast
qed

theorem folded_line_decodes_as_unfolded_witness:
  "event_at
     (''BEGIN:VCALENDAR'' @ [CR, LF] @ ''BEGIN:VEVENT'' @ [CR, LF] @
      ''SUMMARY'' @ '':'' @ ''Hello'' @ ''World'' @ [CR, LF] @
      ''END:VEVENT'' @ [CR, LF] @ ''END:VCALENDAR'' @ [CR, LF])
     newCalendar newEvent
     (''SUMMARY'' @ '':'' @ ''Hello'' @ ''World'' @ [CR, LF] @
      ''END:VEVENT'' @ [CR, LF] @ ''END:VCALENDAR'' @ [CR, LF]) \<and>
   decodeLine (''SUMMARY'' @ '':'' @ ''Hello'' @ [CR, LF] @ '' '' @ ''World'' @ [CR, LF] @
      ''END:VEVENT'' @ [CR, LF] @ ''END:VCALENDAR'' @ [CR, LF]) =
     Inr (''SUMMARY'', ''HelloWorld'', ''END:VEVENT'' @ [CR, LF] @ ''END:VCALENDAR'' @ [CR, LF]) \<and>
   Decode (''BEGIN:VCALENDAR'' @ [CR, LF] @ ''BEGIN:VEVENT'' @ [CR, LF] @
      ''SUMMARY'' @ '':'' @ ''Hello'' @ [CR, LF] @ '' '' @ ''World'' @ [CR, LF] @
      ''END:VEVENT'' @ [CR, LF] @ ''END:VCALENDAR'' @ [CR, LF]) =
     Return (Some \<lparr>Events = [newEvent\<lparr>Summary := ''HelloWorld''\<rparr>]\<rparr>) None"
proof -
  let ?rest = "''END:VEVENT'' @ [CR, LF] @ ''END:VCALENDAR'' @ [CR, LF]"
  let ?U = "''SUMMARY'' @ '':'' @ ''Hello'' @ ''World'' @ [CR, LF] @ ?rest"
  let ?F = "''SUMMARY'' @ '':'' @ ''Hello'' @ [CR, LF] @ '' '' @ ''World'' @ [CR, LF] @ ?rest"
  let ?pre = "''BEGIN:VCALENDAR'' @ [CR, LF] @ ''BEGIN:VEVENT'' @ [CR, LF]"
  let ?r1 = "''BEGIN:VEVENT'' @ [CR, LF] @ ?U"
  have d0: "decodeLine (?pre @ ?U) = Inr (''BEGIN'', ''VCALENDAR'', ?r1)"
    by code_simp
  have d1: "decodeLine ?r1 = Inr (''BEGIN'', ''VEVENT'', ?U)"
    by code_simp
  have c1: "calendar_at (?pre @ ?U) (Some newCalendar) ?r1"
    by (rule calendar_at.begin_calendar [OF calendar_at.start d0])
  have e0: "event_at (?pre @ ?U) newCalendar newEvent ?U"
    by (rule event_at.enter [OF c1 d1])
  have h: "[CR, LF] = [LF] \<or> [CR, LF] = [CR, LF]"
    "LF \<notin> set (''SUMMARY'' @ ''Hello'' @ ''World'')"
    "length (''SUMMARY'' @ '':'' @ ''Hello'' @ ''World'' @ [CR, LF]) \<le> defaultBufSize"
    "[CR, LF] = [CR, LF] \<or> ''World'' = [] \<or> ''Hello'' = [] \<or> last ''Hello'' \<noteq> CR"
    by (simp_all add: defaultBufSize_def)
  note inst = folded_line_decodes_as_unfolded [OF h, of ?rest ?pre _ newCalendar newEvent]
  have dU: "decodeLine ?U = Inr (''SUMMARY'', ''HelloWorld'', ?rest)"
    by code_simp
  have dF: "decodeLine ?F = Inr (''SUMMARY'', ''HelloWorld'', ?rest)"
    using inst [THEN conjunct1] dU by (simp only:)
  have "Decode (?pre @ ?F) = Decode (?pre @ ?U)"
    by (rule inst [THEN conjunct2, THEN conjunct2, rule_format, OF disjI1, OF e0])
  moreover have "Decode (?pre @ ?U) =
      Return (Some \<lparr>Events = [newEvent\<lparr>Summary := ''HelloWorld''\<rparr>]\<rparr>) None"
    by code_simp
  ultimately have D: "Decode (?pre @ ?F) =
      Return (Some \<lparr>Events = [newEvent\<lparr>Summary := ''HelloWorld''\<rparr>]\<rparr>) None"
    by (simp only:)
  have e0': "event_at
     (''BEGIN:VCALENDAR'' @ [CR, LF] @ ''BEGIN:VEVENT'' @ [CR, LF] @ ?U) newCalendar newEvent ?U"
    using e0 by (simp only: append_assoc)
  have D': "Decode (''BEGIN:VCALENDAR'' @ [CR, LF] @ ''BEGIN:VEVENT'' @ [CR, LF] @ ?F) =
      Return (Some \<lparr>Events = [newEvent\<lparr>Summary := ''HelloWorld''\<rparr>]\<rparr>) None"
    using D by (simp only: append_assoc)
  show ?thesis
    by (rule conjI e0' dF D')+
qed

text \<open>
  The claim as stated fails. Its example expects \<open>SUMMARY:Hello\<close> followed by a space
  and \<open>World\<close> to decode to the value \<open>Hello World\<close>, but the only space there is
  the continuation marker, which is removed: the value is \<open>HelloWorld\<close>. A value of
  8000 bytes decodes when folded into two lines of about 4000 bytes, while the unfolded line
  does not fit the buffer and is answered with \<open>unexpected long line\<close>. And with bare
  line feeds, folding right after a carriage return makes the reader drop it.
\<close>

theorem folded_line_counterexample:
  "decodeLine (''SUMMARY:Hello'' @ [LF] @ '' World'' @ [LF]) \<noteq>
     Inr (''SUMMARY'', ''Hello World'', []) \<and>
   decodeLine (''K:'' @ replicate 4000 (CHR ''a'') @ [LF] @ '' '' @ replicate 4000 (CHR ''b'') @ [LF]) \<noteq>
   decodeLine (''K:'' @ replicate 4000 (CHR ''a'') @ replicate 4000 (CHR ''b'') @ [LF]) \<and>
   decodeLine (''K:'' @ ''a'' @ [CR] @ [LF] @ '' '' @ ''b'' @ [LF]) \<noteq>
   decodeLine (''K:'' @ ''a'' @ [CR] @ ''b'' @ [LF])"
proof -
  let ?a = "replicate 4000 (CHR ''a'')" and ?b = "replicate 4000 (CHR ''b'')"
  have hello: "decodeLine (''SUMMARY:Hello'' @ [LF] @ '' World'' @ [LF]) \<noteq>
     Inr (''SUMMARY'', ''Hello World'', [])"
    by code_simp
  have cr: "decodeLine (''K:'' @ ''a'' @ [CR] @ [LF] @ '' '' @ ''b'' @ [LF]) \<noteq>
     decodeLine (''K:'' @ ''a'' @ [CR] @ ''b'' @ [LF])"
    by code_simp
  have "LF \<notin> set (''K:'' @ ?a @ ?b)" "defaultBufSize \<le> length (''K:'' @ ?a @ ?b)"
    by (simp_all add: defaultBufSize_def)
  from decodeLine_long [OF this, of "[LF]"]
  have long: "decodeLine (''K:'' @ ?a @ ?b @ [LF]) = Inl LongLine"
    by simp
  have 1: "LF \<notin> set (''K:'' @ ?a)" "length (''K:'' @ ?a) < defaultBufSize"
    "dropCR (''K:'' @ ?a) \<noteq> []"
    by (simp_all add: defaultBufSize_def dropCR_empty)
  have 2: "LF \<notin> set ('' '' @ ?b)" "length ('' '' @ ?b) < defaultBufSize"
    "dropCR ('' '' @ ?b) \<noteq> []"
    by (simp_all add: defaultBufSize_def dropCR_empty)
  let ?s = "\<lambda>b. if hd b = CHR '' '' then tl b else b"
  have s2: "readLogical buf ('' '' @ ?b @ [LF]) = Inr (buf @ ?s (dropCR ('' '' @ ?b)), [])"
    for buf
    using readLogical_LF [OF 2, of buf "[]"] by simp
  have s1: "readLogical [] (''K:'' @ ?a @ [LF] @ '' '' @ ?b @ [LF]) =
      readLogical ([] @ ?s (dropCR (''K:'' @ ?a))) ('' '' @ ?b @ [LF])"
    using readLogical_LF [OF 1, of "[]" "'' '' @ ?b @ [LF]"] by simp
  have "readLogical [] (''K:'' @ ?a @ [LF] @ '' '' @ ?b @ [LF]) =
      Inr (([] @ ?s (dropCR (''K:'' @ ?a))) @ ?s (dropCR ('' '' @ ?b)), [])"
    by (simp only: s1 s2)
  from decodeLine_not_long [OF this] long hello cr show ?thesis
    by simp
qed

text \<open>
  C5. When \<open>Decode\<close> is inside an event and reads a \<open>DTSTART\<close> or \<open>DTEND\<close> line
  whose value does not have the layout YYYYMMDDThhmmssZ, the whole call returns the parse
  error of the timestamp, a value format error, with a nil calendar: the field is not
  skipped and no event of the stream is returned.
\<close>

theorem bad_timestamp_aborts_Decode:
  assumes "event_at rd cal e r"
    and "decodeLine r = Inr (key, value, r')"
    and "key = ''DTSTART'' \<or> key = ''DTEND''"
    and "\<not> matchesLayout value"
  shows "Decode rd = Return None (Some ParseError) \<and> kind ParseError = ValueFormatError"
proof -
  from assms(4) have "decodeTime value = Inl ParseError"
    by (rule decodeTime_bad_layout)
  with assms(3) have "setField key value e = Inl ParseError"
    by (auto simp: setField_def)
  moreover from assms(3) have "key \<noteq> ''END''"
    by auto
  ultimately have "decodeEvent_loop e r = Inl ParseError"
    using assms(2) by (simp add: decodeEvent_loop_field)
  with event_at_Decode [OF assms(1)] show ?thesis
    by simp
qed

theorem bad_timestamp_aborts_Decode_witness:
  "event_at
     (unlines [''BEGIN:VCALENDAR'', ''BEGIN:VEVENT'', ''UID:a'', ''DTSTART:20110601T1000Z'',
        ''END:VEVENT'', ''END:VCALENDAR''])
     newCalendar (newEvent\<lparr>UID := ''a''\<rparr>)
     (unlines [''DTSTART:20110601T1000Z'', ''END:VEVENT'', ''END:VCALENDAR'']) \<and>
   decodeLine (unlines [''DTSTART:20110601T1000Z'', ''END:VEVENT'', ''END:VCALENDAR'']) =
     Inr (''DTSTART'', ''20110601T1000Z'', unlines [''END:VEVENT'', ''END:VCALENDAR'']) \<and>
   \<not> matchesLayout ''20110601T1000Z'' \<and>
   Decode (unlines [''BEGIN:VCALENDAR'', ''BEGIN:VEVENT'', ''UID:a'', ''DTSTART:20110601T1000Z'',
        ''END:VEVENT'', ''END:VCALENDAR'']) = Return None (Some ParseError)"
proof -
  let ?r4 = "unlines [''END:VEVENT'', ''END:VCALENDAR'']"
  let ?r3 = "unlines [''DTSTART:20110601T1000Z'', ''END:VEVENT'', ''END:VCALENDAR'']"
  let ?r2 = "unlines [''UID:a'', ''DTSTART:20110601T1000Z'', ''END:VEVENT'', ''END:VCALENDAR'']"
  let ?r1 = "unlines [''BEGIN:VEVENT'', ''UID:a'', ''DTSTART:20110601T1000Z'',
        ''END:VEVENT'', ''END:VCALENDAR'']"
  let ?rd = "unlines [''BEGIN:VCALENDAR'', ''BEGIN:VEVENT'', ''UID:a'', ''DTSTART:20110601T1000Z'',
        ''END:VEVENT'', ''END:VCALENDAR'']"
  have d0: "decodeLine ?rd = Inr (''BEGIN'', ''VCALENDAR'', ?r1)" by code_simp
  have d1: "decodeLine ?r1 = Inr (''BEGIN'', ''VEVENT'', ?r2)" by code_simp
  have d2: "decodeLine ?r2 = Inr (''UID'', ''a'', ?r3)" by code_simp
  have d3: "decodeLine ?r3 = Inr (''DTSTART'', ''20110601T1000Z'', ?r4)" by code_simp
  have c1: "calendar_at ?rd (Some newCalendar) ?r1"
    by (rule calendar_at.begin_calendar [OF calendar_at.start d0])
  have e0: "event_at ?rd newCalendar newEvent ?r2"
    by (rule event_at.enter [OF c1 d1])
  have e1: "event_at ?rd newCalendar (newEvent\<lparr>UID := ''a''\<rparr>) ?r3"
    by (rule event_at.field [OF e0 d2]) (simp_all add: setField_def)
  have m: "\<not> matchesLayout ''20110601T1000Z''"
    by (simp add: matchesLayout_def)
  from bad_timestamp_aborts_Decode [OF e1 d3 _ m] e1 d3 m show ?thesis
    by simp
qed



text \<open>
  C7. When the loop of \<open>decodeLine\<close> has finished a logical line that contains a colon,
  the key is the text before the first colon (so it has no colon itself) and the value is
  all the text after that colon, further colons included; a logical line with no colon is
  answered with the error \<open>bad line, couldn't find key:value\<close>, a line format error.
\<close>

theorem decodeLine_splits_at_first_colon:
  assumes "readLogical [] r = Inr (line, r')"
  shows "(CHR '':'' \<in> set line \<longrightarrow>
           (\<exists>key value. line = key @ '':'' @ value \<and> CHR '':'' \<notin> set key \<and>
              decodeLine r = Inr (key, value, r'))) \<and>
         (CHR '':'' \<notin> set line \<longrightarrow>
           decodeLine r = Inl BadLine \<and> kind BadLine = LineFormatError)"
proof (intro conjI impI)
  assume "CHR '':'' \<in> set line"
  then obtain k v where c: "cutColon line = Some (k, v)"
    using cutColon_None [of line] by (cases "cutColon line") auto
  from cutColon_Some [OF c] assms c
  show "\<exists>key value. line = key @ '':'' @ value \<and> CHR '':'' \<notin> set key \<and>
          decodeLine r = Inr (key, value, r')"
    by (auto simp: decodeLine_def SplitN2_def)
next
  assume "CHR '':'' \<notin> set line"
  then have "cutColon line = None"
    by (simp add: cutColon_None)
  with assms show "decodeLine r = Inl BadLine"
    by (simp add: decodeLine_def SplitN2_def)
next
  show "kind BadLine = LineFormatError" by simp
qed

theorem decodeLine_splits_at_first_colon_witness:
  "readLogical [] (''URL:http://a:80/'' @ [LF]) = Inr (''URL:http://a:80/'', []) \<and>
   (\<exists>key value. ''URL:http://a:80/'' = key @ '':'' @ value \<and> CHR '':'' \<notin> set key \<and>
      decodeLine (''URL:http://a:80/'' @ [LF]) = Inr (key, value, [])) \<and>
   decodeLine (''URL:http://a:80/'' @ [LF]) = Inr (''URL'', ''http://a:80/'', []) \<and>
   readLogical [] (''GARBAGE'' @ [LF]) = Inr (''GARBAGE'', []) \<and>
   decodeLine (''GARBAGE'' @ [LF]) = Inl BadLine"
proof -
  have a: "readLogical [] (''URL:http://a:80/'' @ [LF]) = Inr (''URL:http://a:80/'', [])"
    by code_simp
  have b: "readLogical [] (''GARBAGE'' @ [LF]) = Inr (''GARBAGE'', [])"
    by code_simp
  have c: "CHR '':'' \<in> set ''URL:http://a:80/''"
    by simp
  have d: "CHR '':'' \<notin> set ''GARBAGE''"
    by simp
  have e: "decodeLine (''URL:http://a:80/'' @ [LF]) = Inr (''URL'', ''http://a:80/'', [])"
    by code_simp
  from decodeLine_splits_at_first_colon [OF a] c
  have f: "\<exists>key value. ''URL:http://a:80/'' = key @ '':'' @ value \<and> CHR '':'' \<notin> set key \<and>
      decodeLine (''URL:http://a:80/'' @ [LF]) = Inr (key, value, [])"
    by blast
  from decodeLine_splits_at_first_colon [OF b] d
  have g: "decodeLine (''GARBAGE'' @ [LF]) = Inl BadLine"
    by blast
  from a b e f g show ?thesis
    by blast
qed

text \<open>
  C8. Inserting one logical line with an unrecognized key leaves the result of \<open>Decode\<close>
  unchanged. The stream is \<open>pre @ post\<close>, cut at a position where the decoder is at the
  head of the loop of \<open>Decode\<close> (with any calendar \<open>c\<close>) or of \<open>decodeEvent\<close> (with
  any event \<open>e\<close> under construction); the inserted physical line is \<open>key:value\<close>
  with a line feed or a carriage return and a line feed, within the reader's buffer, the
  key without a colon and not starting with a space. At calendar level the key is any key
  other than \<open>BEGIN\<close> and \<open>END\<close>, inside an event any key other than \<open>END\<close>,
  \<open>UID\<close>, \<open>DTSTART\<close>, \<open>DTEND\<close>, \<open>SUMMARY\<close>, \<open>LOCATION\<close> and
  \<open>DESCRIPTION\<close>. After the inserted line the decoder is in the same state, at the same
  place of the rest, and the whole call returns what it returns on the stream without the
  line. (A line inserted after a last line that has no line feed, or in front of a stream
  that starts with a space, would merge with its neighbour: the two side conditions on
  \<open>pre\<close> and \<open>post\<close> exclude that.)
\<close>

theorem unrecognized_line_ignored:
  assumes nl: "nl = [LF] \<or> nl = [CR, LF]"
    and key: "CHR '':'' \<notin> set key" "key = [] \<or> hd key \<noteq> CHR '' ''"
    and lf: "LF \<notin> set (key @ value)"
    and len: "length (key @ '':'' @ value @ nl) \<le> defaultBufSize"
    and pre: "post = [] \<longrightarrow> pre = [] \<or> last pre = LF"
    and post: "pre = [] \<longrightarrow> post = [] \<or> hd post \<noteq> CHR '' ''"
  shows "(calendar_at (pre @ post) c post \<and> key \<noteq> ''BEGIN'' \<and> key \<noteq> ''END'' \<longrightarrow>
            calendar_at (pre @ key @ '':'' @ value @ nl @ post) c post \<and>
            Decode (pre @ key @ '':'' @ value @ nl @ post) = Decode (pre @ post)) \<and>
         (event_at (pre @ post) cal e post \<and>
          key \<notin> {''END'', ''UID'', ''DTSTART'', ''DTEND'', ''SUMMARY'', ''LOCATION'',
                  ''DESCRIPTION''} \<longrightarrow>
            event_at (pre @ key @ '':'' @ value @ nl @ post) cal e post \<and>
            Decode (pre @ key @ '':'' @ value @ nl @ post) = Decode (pre @ post))"
proof (intro conjI impI)
  let ?L = "key @ '':'' @ value @ nl"
  from key(2) have hdL: "hd (?L @ post) \<noteq> CHR '' ''" "?L @ post \<noteq> []"
    by (cases key; simp)+
  {
    assume a: "calendar_at (pre @ post) c post \<and> key \<noteq> ''BEGIN'' \<and> key \<noteq> ''END''"
    have le: "line_end pre post" if "pre \<noteq> []"
      using a that by (auto intro: calendar_at_line_end)
    with pre hdL have "pre = [] \<or> new_line pre (?L @ post)"
      by (auto simp: line_end_def new_line_def)
    with a have "calendar_at (pre @ ?L @ post) c (?L @ post)"
      by (auto intro: calendar_at_change_rest)
    moreover from le post have "post = [] \<or> hd post \<noteq> CHR '' ''"
      by (auto simp: line_end_def)
    then have "decodeLine (?L @ post) = Inr (key, dropCR (value @ butlast nl), post)"
      using decodeLine_inserted [OF nl key lf len] by simp
    ultimately have "calendar_at (pre @ ?L @ post) c post"
      using a by (auto intro: calendar_at.other)
    then show "calendar_at (pre @ key @ '':'' @ value @ nl @ post) c post"
      by simp
    then have "Decode (pre @ key @ '':'' @ value @ nl @ post) = Decode_loop c post"
      by (rule calendar_at_Decode)
    moreover from a have "Decode (pre @ post) = Decode_loop c post"
      by (auto intro: calendar_at_Decode)
    ultimately show "Decode (pre @ key @ '':'' @ value @ nl @ post) = Decode (pre @ post)"
      by simp
  }
  {
    assume a: "event_at (pre @ post) cal e post \<and>
      key \<notin> {''END'', ''UID'', ''DTSTART'', ''DTEND'', ''SUMMARY'', ''LOCATION'',
                  ''DESCRIPTION''}"
    then have le: "line_end pre post"
      by (auto intro: event_at_line_end)
    with pre hdL have "new_line pre (?L @ post)"
      by (auto simp: line_end_def new_line_def)
    with a have "event_at (pre @ ?L @ post) cal e (?L @ post)"
      by (auto intro: event_at_change_rest)
    moreover from le have "post = [] \<or> hd post \<noteq> CHR '' ''"
      by (auto simp: line_end_def)
    then have "decodeLine (?L @ post) = Inr (key, dropCR (value @ butlast nl), post)"
      using decodeLine_inserted [OF nl key lf len] by simp
    moreover from a have "key \<noteq> ''END''"
      "setField key (dropCR (value @ butlast nl)) e = Inr e"
      by (simp_all add: setField_other)
    ultimately have "event_at (pre @ ?L @ post) cal e post"
      by (rule event_at.field)
    then show "event_at (pre @ key @ '':'' @ value @ nl @ post) cal e post"
      by simp
    then have "Decode (pre @ key @ '':'' @ value @ nl @ post) =
      (case decodeEvent_loop e post of
        Inl err \<Rightarrow> Return None (Some err)
      | Inr (e', r'') \<Rightarrow> Decode_loop (Some (cal\<lparr>Events := Events cal @ [e']\<rparr>)) r'')"
      by (rule event_at_Decode)
    moreover from a have "Decode (pre @ post) =
      (case decodeEvent_loop e post of
        Inl err \<Rightarrow> Return None (Some err)
      | Inr (e', r'') \<Rightarrow> Decode_loop (Some (cal\<lparr>Events := Events cal @ [e']\<rparr>)) r'')"
      by (auto intro: event_at_Decode)
    ultimately show "Decode (pre @ key @ '':'' @ value @ nl @ post) = Decode (pre @ post)"
      by simp
  }
qed

theorem unrecognized_line_ignored_witness:
  "calendar_at
     (unlines [''BEGIN:VCALENDAR''] @
      unlines [''BEGIN:VEVENT'', ''UID:a'', ''END:VEVENT'', ''END:VCALENDAR''])
     (Some newCalendar)
     (unlines [''BEGIN:VEVENT'', ''UID:a'', ''END:VEVENT'', ''END:VCALENDAR'']) \<and>
   Decode (unlines [''BEGIN:VCALENDAR''] @ ''PRODID'' @ '':'' @ ''x:y'' @ [CR, LF] @
      unlines [''BEGIN:VEVENT'', ''UID:a'', ''END:VEVENT'', ''END:VCALENDAR'']) =
   Decode (unlines [''BEGIN:VCALENDAR''] @
      unlines [''BEGIN:VEVENT'', ''UID:a'', ''END:VEVENT'', ''END:VCALENDAR'']) \<and>
   event_at
     (unlines [''BEGIN:VCALENDAR'', ''BEGIN:VEVENT'', ''UID:a''] @
      unlines [''END:VEVENT'', ''END:VCALENDAR''])
     newCalendar (newEvent\<lparr>UID := ''a''\<rparr>)
     (unlines [''END:VEVENT'', ''END:VCALENDAR'']) \<and>
   Decode (unlines [''BEGIN:VCALENDAR'', ''BEGIN:VEVENT'', ''UID:a''] @
      ''SEQUENCE'' @ '':'' @ ''1'' @ [LF] @ unlines [''END:VEVENT'', ''END:VCALENDAR'']) =
   Decode (unlines [''BEGIN:VCALENDAR'', ''BEGIN:VEVENT'', ''UID:a''] @
      unlines [''END:VEVENT'', ''END:VCALENDAR'']) \<and>
   Decode (unlines [''BEGIN:VCALENDAR'', ''BEGIN:VEVENT'', ''UID:a''] @
      unlines [''END:VEVENT'', ''END:VCALENDAR'']) =
   Return (Some \<lparr>Events = [newEvent\<lparr>UID := ''a''\<rparr>]\<rparr>) None"
proof -
  let ?preA = "unlines [''BEGIN:VCALENDAR'']"
  let ?postA = "unlines [''BEGIN:VEVENT'', ''UID:a'', ''END:VEVENT'', ''END:VCALENDAR'']"
  let ?preB = "unlines [''BEGIN:VCALENDAR'', ''BEGIN:VEVENT'', ''UID:a'']"
  let ?postB = "unlines [''END:VEVENT'', ''END:VCALENDAR'']"
  let ?r1 = "unlines [''BEGIN:VEVENT'', ''UID:a''] @ ?postB"
  let ?r2 = "unlines [''UID:a''] @ ?postB"
  have a0: "decodeLine (?preA @ ?postA) = Inr (''BEGIN'', ''VCALENDAR'', ?postA)"
    by code_simp
  have a1: "calendar_at (?preA @ ?postA) (Some newCalendar) ?postA"
    by (rule calendar_at.begin_calendar [OF calendar_at.start a0])
  have b0: "decodeLine (?preB @ ?postB) = Inr (''BEGIN'', ''VCALENDAR'', ?r1)"
    by code_simp
  have b1: "decodeLine ?r1 = Inr (''BEGIN'', ''VEVENT'', ?r2)"
    by code_simp
  have b2: "decodeLine ?r2 = Inr (''UID'', ''a'', ?postB)"
    by code_simp
  have b3: "calendar_at (?preB @ ?postB) (Some newCalendar) ?r1"
    by (rule calendar_at.begin_calendar [OF calendar_at.start b0])
  have b4: "event_at (?preB @ ?postB) newCalendar newEvent ?r2"
    by (rule event_at.enter [OF b3 b1])
  have b5: "event_at (?preB @ ?postB) newCalendar (newEvent\<lparr>UID := ''a''\<rparr>) ?postB"
    by (rule event_at.field [OF b4 b2]) (simp_all add: setField_def)
  have nlA: "[CR, LF] = [LF] \<or> [CR, LF] = [CR, LF]"
    and nlB: "[LF] = [LF] \<or> [LF] = [CR, LF]"
    by simp_all
  have kA: "CHR '':'' \<notin> set ''PRODID''" "''PRODID'' = [] \<or> hd ''PRODID'' \<noteq> CHR '' ''"
    "LF \<notin> set (''PRODID'' @ ''x:y'')"
    "length (''PRODID'' @ '':'' @ ''x:y'' @ [CR, LF]) \<le> defaultBufSize"
    "?postA = [] \<longrightarrow> ?preA = [] \<or> last ?preA = LF"
    "?preA = [] \<longrightarrow> ?postA = [] \<or> hd ?postA \<noteq> CHR '' ''"
    by (simp_all add: defaultBufSize_def unlines_def)
  have kB: "CHR '':'' \<notin> set ''SEQUENCE''" "''SEQUENCE'' = [] \<or> hd ''SEQUENCE'' \<noteq> CHR '' ''"
    "LF \<notin> set (''SEQUENCE'' @ ''1'')"
    "length (''SEQUENCE'' @ '':'' @ ''1'' @ [LF]) \<le> defaultBufSize"
    "?postB = [] \<longrightarrow> ?preB = [] \<or> last ?preB = LF"
    "?preB = [] \<longrightarrow> ?postB = [] \<or> hd ?postB \<noteq> CHR '' ''"
    by (simp_all add: defaultBufSize_def unlines_def)
  have uA: "''PRODID'' \<noteq> ''BEGIN''" "''PRODID'' \<noteq> ''END''"
    by simp_all
  have uB: "''SEQUENCE'' \<notin> {''END'', ''UID'', ''DTSTART'', ''DTEND'', ''SUMMARY'', ''LOCATION'',
                  ''DESCRIPTION''}"
    by simp
  have A: "Decode (?preA @ ''PRODID'' @ '':'' @ ''x:y'' @ [CR, LF] @ ?postA) =
      Decode (?preA @ ?postA)"
    by (rule unrecognized_line_ignored [OF nlA kA, THEN conjunct1, rule_format,
          OF conjI [OF a1 conjI [OF uA]], THEN conjunct2])
  have B: "Decode (?preB @ ''SEQUENCE'' @ '':'' @ ''1'' @ [LF] @ ?postB) =
      Decode (?preB @ ?postB)"
    by (rule unrecognized_line_ignored [OF nlB kB, THEN conjunct2, rule_format,
          OF conjI [OF b5 uB], THEN conjunct2])
  have C: "Decode (?preB @ ?postB) = Return (Some \<lparr>Events = [newEvent\<lparr>UID := ''a''\<rparr>]\<rparr>) None"
    by code_simp
  show ?thesis
    by (rule conjI a1 A b5 B C)+
qed

text \<open>
  C9. Inside an event a \<open>BEGIN\<close> line, \<open>BEGIN:VEVENT\<close> included, is an unrecognized
  key: the loop of \<open>decodeEvent\<close> goes on with the same event under construction and no
  second event is started. The property lines that follow are written to that same event,
  each one overwriting the field it names, and the first \<open>END:VEVENT\<close> line finishes
  it: the event is appended to the calendar and \<open>Decode\<close> is back in its own loop.
\<close>

theorem nested_BEGIN_VEVENT_ignored:
  assumes "event_at rd cal e r"
    and "decodeLine r = Inr (key, value, r')"
  shows "(key = ''BEGIN'' \<longrightarrow>
            event_at rd cal e r' \<and> decodeEvent_loop e r = decodeEvent_loop e r') \<and>
         (key = ''UID'' \<longrightarrow> event_at rd cal (e\<lparr>UID := value\<rparr>) r') \<and>
         (key = ''SUMMARY'' \<longrightarrow> event_at rd cal (e\<lparr>Summary := value\<rparr>) r') \<and>
         (key = ''LOCATION'' \<longrightarrow> event_at rd cal (e\<lparr>Location := value\<rparr>) r') \<and>
         (key = ''DESCRIPTION'' \<longrightarrow> event_at rd cal (e\<lparr>Description := value\<rparr>) r') \<and>
         (key = ''DTSTART'' \<longrightarrow>
            (\<forall>t. decodeTime value = Inr t \<longrightarrow> event_at rd cal (e\<lparr>Start := t\<rparr>) r')) \<and>
         (key = ''DTEND'' \<longrightarrow>
            (\<forall>t. decodeTime value = Inr t \<longrightarrow> event_at rd cal (e\<lparr>End := t\<rparr>) r')) \<and>
         (key = ''END'' \<and> value = ''VEVENT'' \<longrightarrow>
            decodeEvent_loop e r = Inr (e, r') \<and>
            calendar_at rd (Some (cal\<lparr>Events := Events cal @ [e]\<rparr>)) r')"
proof -
  have step: "event_at rd cal e' r'" if "key \<noteq> ''END''" "setField key value e = Inr e'" for e'
    using assms that by (rule event_at.field)
  have "decodeEvent_loop e r = decodeEvent_loop e r'" if "key = ''BEGIN''"
    using assms(2) that by (simp add: decodeEvent_loop_field setField_def)
  moreover have "decodeEvent_loop e r = Inr (e, r')" if "key = ''END'' \<and> value = ''VEVENT''"
    using assms(2) that by (simp add: decodeEvent_loop_end)
  moreover have "calendar_at rd (Some (cal\<lparr>Events := Events cal @ [e]\<rparr>)) r'"
    if "key = ''END'' \<and> value = ''VEVENT''"
    using assms that by (auto intro: event_at_finished)
  ultimately show ?thesis
    by (auto intro!: step simp: setField_def)
qed

theorem nested_BEGIN_VEVENT_ignored_witness:
  "event_at
     (unlines [''BEGIN:VCALENDAR'', ''BEGIN:VEVENT'', ''UID:a'', ''BEGIN:VEVENT'', ''UID:b'',
        ''END:VEVENT'', ''SUMMARY:s'', ''END:VEVENT'', ''END:VCALENDAR''])
     newCalendar (newEvent\<lparr>UID := ''a''\<rparr>)
     (unlines [''BEGIN:VEVENT'', ''UID:b'', ''END:VEVENT'', ''SUMMARY:s'', ''END:VEVENT'',
        ''END:VCALENDAR'']) \<and>
   event_at
     (unlines [''BEGIN:VCALENDAR'', ''BEGIN:VEVENT'', ''UID:a'', ''BEGIN:VEVENT'', ''UID:b'',
        ''END:VEVENT'', ''SUMMARY:s'', ''END:VEVENT'', ''END:VCALENDAR''])
     newCalendar (newEvent\<lparr>UID := ''a''\<rparr>)
     (unlines [''UID:b'', ''END:VEVENT'', ''SUMMARY:s'', ''END:VEVENT'', ''END:VCALENDAR'']) \<and>
   Decode
     (unlines [''BEGIN:VCALENDAR'', ''BEGIN:VEVENT'', ''UID:a'', ''BEGIN:VEVENT'', ''UID:b'',
        ''END:VEVENT'', ''SUMMARY:s'', ''END:VEVENT'', ''END:VCALENDAR'']) =
     Return (Some \<lparr>Events = [newEvent\<lparr>UID := ''b''\<rparr>]\<rparr>) None"
proof -
  let ?r3 = "unlines [''UID:b'', ''END:VEVENT'', ''SUMMARY:s'', ''END:VEVENT'', ''END:VCALENDAR'']"
  let ?r2 = "unlines [''BEGIN:VEVENT'', ''UID:b'', ''END:VEVENT'', ''SUMMARY:s'', ''END:VEVENT'',
        ''END:VCALENDAR'']"
  let ?r1 = "unlines [''UID:a'', ''BEGIN:VEVENT'', ''UID:b'',
        ''END:VEVENT'', ''SUMMARY:s'', ''END:VEVENT'', ''END:VCALENDAR'']"
  let ?r0 = "unlines [''BEGIN:VEVENT'', ''UID:a'', ''BEGIN:VEVENT'', ''UID:b'',
        ''END:VEVENT'', ''SUMMARY:s'', ''END:VEVENT'', ''END:VCALENDAR'']"
  let ?rd = "unlines [''BEGIN:VCALENDAR'', ''BEGIN:VEVENT'', ''UID:a'', ''BEGIN:VEVENT'', ''UID:b'',
        ''END:VEVENT'', ''SUMMARY:s'', ''END:VEVENT'', ''END:VCALENDAR'']"
  have d0: "decodeLine ?rd = Inr (''BEGIN'', ''VCALENDAR'', ?r0)" by code_simp
  have d1: "decodeLine ?r0 = Inr (''BEGIN'', ''VEVENT'', ?r1)" by code_simp
  have d2: "decodeLine ?r1 = Inr (''UID'', ''a'', ?r2)" by code_simp
  have d3: "decodeLine ?r2 = Inr (''BEGIN'', ''VEVENT'', ?r3)" by code_simp
  have c1: "calendar_at ?rd (Some newCalendar) ?r0"
    by (rule calendar_at.begin_calendar [OF calendar_at.start d0])
  have e0: "event_at ?rd newCalendar newEvent ?r1"
    by (rule event_at.enter [OF c1 d1])
  have e1: "event_at ?rd newCalendar (newEvent\<lparr>UID := ''a''\<rparr>) ?r2"
    by (rule event_at.field [OF e0 d2]) (simp_all add: setField_def)
  have e2: "event_at ?rd newCalendar (newEvent\<lparr>UID := ''a''\<rparr>) ?r3"
    by (rule nested_BEGIN_VEVENT_ignored [OF e1 d3, THEN conjunct1, rule_format, OF refl,
          THEN conjunct1])
  have dec: "Decode ?rd = Return (Some \<lparr>Events = [newEvent\<lparr>UID := ''b''\<rparr>]\<rparr>) None"
    by code_simp
  show ?thesis
    by (rule conjI e1 e2 dec)+
qed

text \<open>
  C10. The line reader strips one leading space from every physical line, the first one
  of a logical line included: a stream whose first physical line is a space followed by
  the text \<open>l\<close> (not empty, not starting with a second space, and fitting the
  reader's buffer) is decoded exactly as the stream that starts with \<open>l\<close> itself, so
  that \<open>BEGIN:VCALENDAR\<close> after one space opens the calendar.
\<close>

theorem leading_space_of_first_line_stripped:
  assumes "LF \<notin> set l" "Suc (length l) < defaultBufSize"
    and "l \<noteq> []" "l \<noteq> [CR]" "hd l \<noteq> CHR '' ''"
  shows "decodeLine ('' '' @ l @ [LF] @ rest) = decodeLine (l @ [LF] @ rest) \<and>
         Decode ('' '' @ l @ [LF] @ rest) = Decode (l @ [LF] @ rest)"
proof -
  have rl: "readLogical [] ('' '' @ l @ [LF] @ rest) = readLogical [] (l @ [LF] @ rest)"
    using readLogical_leading_space [OF assms] by simp
  then have dl: "decodeLine ('' '' @ l @ [LF] @ rest) = decodeLine (l @ [LF] @ rest)"
    by (rule decodeLine_readLogical)
  have "Decode_loop None ('' '' @ l @ [LF] @ rest) = Decode_loop None (l @ [LF] @ rest)"
    by (subst Decode_loop.simps, subst (2) Decode_loop.simps) (simp only: dl)
  with dl show ?thesis
    by (simp only: Decode_def simp_thms)
qed

theorem leading_space_of_first_line_stripped_witness:
  "decodeLine ('' '' @ ''BEGIN:VCALENDAR'' @ [LF] @ ''END:VCALENDAR'') =
     Inr (''BEGIN'', ''VCALENDAR'', ''END:VCALENDAR'') \<and>
   Decode ('' '' @ ''BEGIN:VCALENDAR'' @ [LF] @ ''END:VCALENDAR'') =
     Return (Some \<lparr>Events = []\<rparr>) None"
proof -
  have a: "decodeLine (''BEGIN:VCALENDAR'' @ [LF] @ ''END:VCALENDAR'') =
     Inr (''BEGIN'', ''VCALENDAR'', ''END:VCALENDAR'')"
    by code_simp
  have b: "Decode (''BEGIN:VCALENDAR'' @ [LF] @ ''END:VCALENDAR'') =
     Return (Some \<lparr>Events = []\<rparr>) None"
    by code_simp
  have "LF \<notin> set ''BEGIN:VCALENDAR''" "Suc (length ''BEGIN:VCALENDAR'') < defaultBufSize"
    "''BEGIN:VCALENDAR'' \<noteq> []" "''BEGIN:VCALENDAR'' \<noteq> [CR]" "hd ''BEGIN:VCALENDAR'' \<noteq> CHR '' ''"
    by (simp_all add: defaultBufSize_def)
  from leading_space_of_first_line_stripped [OF this, of "''END:VCALENDAR''"] a b
  show ?thesis by simp
qed

end
